theory Spec2Isabelle
  imports Complex_Main
begin

section \<open>Task Ledger (src/core/todo-manager.ts)\<close>

text \<open>
  The ledger is the in-memory state of a \<^verbatim>\<open>TodoManager\<close>: its \<^verbatim>\<open>groups\<close> array and the
  \<^verbatim>\<open>currentGroup\<close> reference, which always aliases an element of \<^verbatim>\<open>groups\<close> and is therefore
  an index here. \<^verbatim>\<open>Date\<close> values are milliseconds since the epoch (valid dates only), the
  clock and the random id generator are arguments of the operations that read them.
  Strings are lists of 8-bit characters.
\<close>

datatype todo_status = Pending | InProgress | Completed | Skipped | Blocked

datatype todo_priority = Low | Medium | High

datatype group_status = GroupPending | GroupInProgress | GroupCompleted | GroupCancelled

record Todo =
  tid :: string
  title :: string
  description :: "string option"
  status :: todo_status
  priority :: todo_priority
  createdAt :: int
  updatedAt :: int
  estimatedTokens :: "nat option"
  actualTokens :: "nat option"
  dependencies :: "string list option"
  tags :: "string list option"

record TodoGroup =
  gid :: string
  gtitle :: string
  gdescription :: "string option"
  todos :: "Todo list"
  gstatus :: group_status
  gcreatedAt :: int
  gupdatedAt :: int
  gestimatedTokens :: "nat option"
  gactualTokens :: "nat option"

record TodoManager =
  groups :: "TodoGroup list"
  currentGroup :: "nat option"

datatype ledger_error = TodoNotFound string

text \<open>\<^verbatim>\<open>Array.prototype.findIndex\<close>: the position of the first element satisfying the test.\<close>

fun findIndex :: "('a \<Rightarrow> bool) \<Rightarrow> 'a list \<Rightarrow> nat option" where
  "findIndex P [] = None"
| "findIndex P (x # xs) = (if P x then Some 0 else map_option Suc (findIndex P xs))"

text \<open>
  \<^verbatim>\<open>findTodo\<close> returns references to a group and to a todo inside it; a reference is the
  position (group index, todo index), \<^verbatim>\<open>{group: null, todo: null}\<close> is \<open>None\<close>.
\<close>

fun findTodoFrom :: "nat \<Rightarrow> TodoGroup list \<Rightarrow> string \<Rightarrow> (nat \<times> nat) option" where
  "findTodoFrom gi [] todoId = None"
| "findTodoFrom gi (g # gs) todoId =
     (case findIndex (\<lambda>t. tid t = todoId) (todos g) of
        Some ti \<Rightarrow> Some (gi, ti)
      | None \<Rightarrow> findTodoFrom (Suc gi) gs todoId)"

definition findTodo :: "TodoManager \<Rightarrow> string \<Rightarrow> (nat \<times> nat) option" where
  "findTodo m todoId = findTodoFrom 0 (groups m) todoId"

definition todoAt :: "TodoManager \<Rightarrow> nat \<times> nat \<Rightarrow> Todo" where
  "todoAt m r = todos (groups m ! fst r) ! snd r"

definition getAllTodos :: "TodoManager \<Rightarrow> Todo list" where
  "getAllTodos m = concat (map todos (groups m))"

definition areDependenciesMet :: "TodoManager \<Rightarrow> Todo \<Rightarrow> bool" where
  "areDependenciesMet m todo =
     (case dependencies todo of
        None \<Rightarrow> True
      | Some deps \<Rightarrow>
          if length deps = 0 then True
          else list_all (\<lambda>depId.
                 case findTodo m depId of
                   None \<Rightarrow> False
                 | Some r \<Rightarrow> status (todoAt m r) = Completed) deps)"

definition updateGroupStatus :: "int \<Rightarrow> TodoGroup \<Rightarrow> TodoGroup" where
  "updateGroupStatus now g =
     (if length (todos g) = 0 then g\<lparr>gstatus := GroupPending\<rparr>
      else
        let completed = length (filter (\<lambda>t. status t = Completed) (todos g));
            inProgress = length (filter (\<lambda>t. status t = InProgress) (todos g));
            total = length (todos g)
        in g\<lparr>gstatus :=
               (if completed = total then GroupCompleted
                else if inProgress > 0 \<or> completed > 0 then GroupInProgress
                else GroupPending),
             gupdatedAt := now\<rparr>)"

text \<open>
  \<^verbatim>\<open>updateTodoStatus\<close> throws when the id resolves to nothing; otherwise it assigns the
  requested status to the referenced todo, whatever its current status, and recomputes the
  status of the referenced group. The write-through \<^verbatim>\<open>saveTodos\<close> and the console log do
  not change the in-memory ledger and are left out.
\<close>

definition updateTodoStatus ::
  "TodoManager \<Rightarrow> string \<Rightarrow> todo_status \<Rightarrow> nat option \<Rightarrow> int \<Rightarrow> ledger_error + TodoManager" where
  "updateTodoStatus m todoId newStatus actual now =
     (case findTodo m todoId of
        None \<Rightarrow> Inl (TodoNotFound todoId)
      | Some (gi, ti) \<Rightarrow>
          let group = groups m ! gi;
              todo = todos group ! ti;
              todo1 = todo\<lparr>status := newStatus, updatedAt := now\<rparr>;
              todo2 = (case actual of None \<Rightarrow> todo1 | Some n \<Rightarrow> todo1\<lparr>actualTokens := Some n\<rparr>);
              group1 = updateGroupStatus now (group\<lparr>todos := (todos group)[ti := todo2]\<rparr>)
          in Inr (m\<lparr>groups := (groups m)[gi := group1]\<rparr>))"

definition getCurrentTodo :: "TodoManager \<Rightarrow> Todo option" where
  "getCurrentTodo m =
     (case filter (\<lambda>t. status t = InProgress) (getAllTodos m) of
        [] \<Rightarrow> None
      | t # _ \<Rightarrow> Some t)"

text \<open>
  \<^verbatim>\<open>Array.prototype.sort\<close> with a comparator is a stable sort: an insertion sort that keeps
  the earlier of two elements the comparator does not separate in front.
\<close>

fun insertSorted :: "('a \<Rightarrow> 'a \<Rightarrow> int) \<Rightarrow> 'a \<Rightarrow> 'a list \<Rightarrow> 'a list" where
  "insertSorted cmp x [] = [x]"
| "insertSorted cmp x (y # ys) =
     (if cmp x y \<le> 0 then x # y # ys else y # insertSorted cmp x ys)"

definition jsSort :: "('a \<Rightarrow> 'a \<Rightarrow> int) \<Rightarrow> 'a list \<Rightarrow> 'a list" where
  "jsSort cmp xs = foldr (insertSorted cmp) xs []"

fun priorityWeight :: "todo_priority \<Rightarrow> int" where
  "priorityWeight High = 3"
| "priorityWeight Medium = 2"
| "priorityWeight Low = 1"

definition compareTodos :: "Todo \<Rightarrow> Todo \<Rightarrow> int" where
  "compareTodos a b =
     (let aPriority = priorityWeight (priority a);
          bPriority = priorityWeight (priority b)
      in if aPriority \<noteq> bPriority then bPriority - aPriority
         else createdAt a - createdAt b)"

definition getNextTodo :: "TodoManager \<Rightarrow> Todo option" where
  "getNextTodo m =
     (case jsSort compareTodos
             (filter (areDependenciesMet m)
                (filter (\<lambda>t. status t = Pending) (getAllTodos m))) of
        [] \<Rightarrow> None
      | t # _ \<Rightarrow> Some t)"

text \<open>
  \<^verbatim>\<open>continueFromLastCheckpoint\<close> returns a todo and leaves a ledger behind. The todo it
  returns is the ledger's own object. \<^verbatim>\<open>updateTodoStatus\<close> is called with the selected
  todo's id and changes the object \<^verbatim>\<open>findTodo\<close> resolves that id to: the first todo
  carrying the id. When this is the selected todo itself, the caller receives it as the
  ledger holds it after the promotion, in progress and with the new \<^verbatim>\<open>updatedAt\<close>. When
  another todo carries the same id in front of it, that one is changed and the selected
  todo is returned as it was. The two are one object exactly when they are equal: the
  stable sort puts the first of equal todos in front, and \<^verbatim>\<open>find\<close> takes the first todo
  with the id.
\<close>

definition continueFromLastCheckpoint ::
  "TodoManager \<Rightarrow> int \<Rightarrow> ledger_error + (Todo option \<times> TodoManager)" where
  "continueFromLastCheckpoint m now =
     (case getCurrentTodo m of
        Some currentTodo \<Rightarrow> Inr (Some currentTodo, m)
      | None \<Rightarrow>
          (case getNextTodo m of
             Some nextTodo \<Rightarrow>
               (case updateTodoStatus m (tid nextTodo) InProgress None now of
                  Inl e \<Rightarrow> Inl e
                | Inr m' \<Rightarrow>
                    (case findTodo m (tid nextTodo) of
                       None \<Rightarrow> Inr (Some nextTodo, m')
                     | Some r \<Rightarrow>
                         Inr (Some (if todoAt m r = nextTodo then todoAt m' r else nextTodo), m')))
           | None \<Rightarrow> Inr (None, m)))"

definition createTodoGroup ::
  "TodoManager \<Rightarrow> string \<Rightarrow> string option \<Rightarrow> nat option \<Rightarrow> string \<Rightarrow> int \<Rightarrow> string \<times> TodoManager" where
  "createTodoGroup m ttl desc est newId now =
     (let group = \<lparr>gid = newId, gtitle = ttl, gdescription = desc, todos = [],
                   gstatus = GroupPending, gcreatedAt = now, gupdatedAt = now,
                   gestimatedTokens = est, gactualTokens = None\<rparr>
      in (newId, m\<lparr>groups := groups m @ [group], currentGroup := Some (length (groups m))\<rparr>))"

record AddTodoOptions =
  optDescription :: "string option"
  optPriority :: "todo_priority option"
  optEstimatedTokens :: "nat option"
  optDependencies :: "string list option"
  optTags :: "string list option"
  optGroupId :: "string option"

text \<open>
  \<^verbatim>\<open>addTodo\<close> draws the todo's id first and a group id only when it has to create the
  default group. An absent or empty \<^verbatim>\<open>groupId\<close> is falsy. The group's status is not
  recomputed here.
\<close>

definition addTodo ::
  "TodoManager \<Rightarrow> string \<Rightarrow> AddTodoOptions \<Rightarrow> string \<Rightarrow> string \<Rightarrow> int \<Rightarrow> string \<times> TodoManager" where
  "addTodo m ttl opts newId newGroupId now =
     (let todo = \<lparr>tid = newId, title = ttl, description = optDescription opts,
                  status = Pending,
                  priority = (case optPriority opts of None \<Rightarrow> Medium | Some p \<Rightarrow> p),
                  createdAt = now, updatedAt = now,
                  estimatedTokens = optEstimatedTokens opts, actualTokens = None,
                  dependencies = Some (case optDependencies opts of None \<Rightarrow> [] | Some d \<Rightarrow> d),
                  tags = Some (case optTags opts of None \<Rightarrow> [] | Some t \<Rightarrow> t)\<rparr>;
          targetGroup =
            (case optGroupId opts of
               None \<Rightarrow> currentGroup m
             | Some g \<Rightarrow>
                 if g = [] then currentGroup m
                 else (case findIndex (\<lambda>x. gid x = g) (groups m) of
                         Some gi \<Rightarrow> Some gi
                       | None \<Rightarrow> currentGroup m));
          (m1, gi) =
            (case targetGroup of
               Some gi \<Rightarrow> (m, gi)
             | None \<Rightarrow> (snd (createTodoGroup m ''Default Tasks'' None None newGroupId now),
                        length (groups m)));
          group = groups m1 ! gi;
          group1 = group\<lparr>todos := todos group @ [todo], gupdatedAt := now\<rparr>
      in (newId, m1\<lparr>groups := (groups m1)[gi := group1]\<rparr>))"


text \<open>The dependency ids of a todo; the field is optional in the source.\<close>

definition dependencyIds :: "Todo \<Rightarrow> string list" where
  "dependencyIds t = (case dependencies t of None \<Rightarrow> [] | Some deps \<Rightarrow> deps)"


text \<open>
  The group invariant in the specification's words: completed iff all members are
  completed, in progress iff some member is in progress or completed but not all are
  completed, pending otherwise.
\<close>

definition groupStatusInvariant :: "TodoGroup \<Rightarrow> bool" where
  "groupStatusInvariant g \<longleftrightarrow>
     (gstatus g = GroupCompleted \<longleftrightarrow> (\<forall>t\<in>set (todos g). status t = Completed)) \<and>
     (gstatus g = GroupInProgress \<longleftrightarrow>
        (\<exists>t\<in>set (todos g). status t = InProgress \<or> status t = Completed) \<and>
        \<not> (\<forall>t\<in>set (todos g). status t = Completed)) \<and>
     (gstatus g = GroupPending \<longleftrightarrow>
        \<not> (\<forall>t\<in>set (todos g). status t = Completed) \<and>
        \<not> (\<exists>t\<in>set (todos g). status t = InProgress \<or> status t = Completed))"

text \<open>
  The rule \<^verbatim>\<open>updateGroupStatus\<close> computes: as above, except that a group counts as
  completed only when it has a member, so that a group without members is pending.
\<close>

definition statusReflectsMembers :: "TodoGroup \<Rightarrow> bool" where
  "statusReflectsMembers g \<longleftrightarrow>
     (gstatus g = GroupCompleted \<longleftrightarrow>
        todos g \<noteq> [] \<and> (\<forall>t\<in>set (todos g). status t = Completed)) \<and>
     (gstatus g = GroupInProgress \<longleftrightarrow>
        (\<exists>t\<in>set (todos g). status t = InProgress \<or> status t = Completed) \<and>
        \<not> (\<forall>t\<in>set (todos g). status t = Completed)) \<and>
     (gstatus g = GroupPending \<longleftrightarrow>
        \<not> (\<exists>t\<in>set (todos g). status t = InProgress \<or> status t = Completed))"

subsection \<open>Example ledgers\<close>

definition mkTodo :: "string \<Rightarrow> todo_status \<Rightarrow> todo_priority \<Rightarrow> int \<Rightarrow> string list \<Rightarrow> Todo" where
  "mkTodo i st p created deps =
     \<lparr>tid = i, title = i, description = None, status = st, priority = p, createdAt = created,
      updatedAt = created, estimatedTokens = None, actualTokens = None, dependencies = Some deps,
      tags = Some []\<rparr>"

definition mkGroup :: "string \<Rightarrow> group_status \<Rightarrow> Todo list \<Rightarrow> TodoGroup" where
  "mkGroup i st ts =
     \<lparr>gid = i, gtitle = i, gdescription = None, todos = ts, gstatus = st, gcreatedAt = 0,
      gupdatedAt = 0, gestimatedTokens = None, gactualTokens = None\<rparr>"

definition emptyLedger :: TodoManager where
  "emptyLedger = \<lparr>groups = [], currentGroup = None\<rparr>"

text \<open>Three pending todos of priorities low, high, medium, created in that order.\<close>

definition ledgerLowHighMedium :: TodoManager where
  "ledgerLowHighMedium =
     \<lparr>groups = [mkGroup ''g'' GroupPending
        [mkTodo ''a'' Pending Low 1 [], mkTodo ''b'' Pending High 2 [],
         mkTodo ''c'' Pending Medium 3 []]],
      currentGroup = Some 0\<rparr>"

text \<open>A high-priority todo waiting for an id no todo carries, next to a free low-priority one.\<close>

definition ledgerGhostDependency :: TodoManager where
  "ledgerGhostDependency =
     \<lparr>groups = [mkGroup ''g'' GroupPending
        [mkTodo ''a'' Pending High 1 [''ghost''], mkTodo ''b'' Pending Low 2 []]],
      currentGroup = Some 0\<rparr>"


text \<open>A group whose members are skipped and blocked, and one pending todo in a second group.\<close>

definition ledgerSkippedBlocked :: TodoManager where
  "ledgerSkippedBlocked =
     \<lparr>groups = [mkGroup ''g'' GroupPending
        [mkTodo ''a'' Skipped Medium 1 [], mkTodo ''b'' Blocked Medium 2 []],
        mkGroup ''h'' GroupPending [mkTodo ''c'' Pending Medium 3 []]],
      currentGroup = Some 1\<rparr>"

section \<open>File generation (src/core/file-generator.ts, src/core/git-manager.ts)\<close>

subsection \<open>JavaScript strings\<close>

text \<open>
  A string is a list of code units below 256. \<^verbatim>\<open>\s\<close> and \<^verbatim>\<open>trim\<close> see the white space
  and line terminators in that range; case conversion acts on the ASCII letters (the
  regular expressions of the source name ASCII characters only).
\<close>

definition isWhiteSpace :: "char \<Rightarrow> bool" where
  "isWhiteSpace c \<longleftrightarrow>
     (let n = (of_char c :: nat) in (9 \<le> n \<and> n \<le> 13) \<or> n = 32 \<or> n = 160)"

definition isLineTerminator :: "char \<Rightarrow> bool" where
  "isLineTerminator c \<longleftrightarrow> (of_char c :: nat) = 10 \<or> (of_char c :: nat) = 13"

definition toUpperChar :: "char \<Rightarrow> char" where
  "toUpperChar c =
     (let n = (of_char c :: nat) in if 97 \<le> n \<and> n \<le> 122 then char_of (n - 32) else c)"

definition toLowerChar :: "char \<Rightarrow> char" where
  "toLowerChar c =
     (let n = (of_char c :: nat) in if 65 \<le> n \<and> n \<le> 90 then char_of (n + 32) else c)"

definition toLowerCase :: "string \<Rightarrow> string" where
  "toLowerCase s = map toLowerChar s"

definition trim :: "string \<Rightarrow> string" where
  "trim s = rev (dropWhile isWhiteSpace (rev (dropWhile isWhiteSpace s)))"

definition startsWith :: "string \<Rightarrow> string \<Rightarrow> bool" where
  "startsWith s pre \<longleftrightarrow> take (length pre) s = pre"

text \<open>\<^verbatim>\<open>s.split(c)\<close> for a one-character separator, and \<^verbatim>\<open>parts.join(sep)\<close>.\<close>

fun splitOn :: "char \<Rightarrow> string \<Rightarrow> string list" where
  "splitOn c [] = [[]]"
| "splitOn c (x # xs) =
     (if x = c then [] # splitOn c xs
      else (case splitOn c xs of [] \<Rightarrow> [[x]] | w # ws \<Rightarrow> (x # w) # ws))"

fun joinWith :: "string \<Rightarrow> string list \<Rightarrow> string" where
  "joinWith sep [] = []"
| "joinWith sep [x] = x"
| "joinWith sep (x # y # ys) = x @ sep @ joinWith sep (y # ys)"

text \<open>The decimal numeral of a count, as a template literal prints it.\<close>

fun showNat :: "nat \<Rightarrow> string" where
  "showNat n =
     (if n < 10 then [char_of (48 + n)]
      else showNat (n div 10) @ [char_of (48 + n mod 10)])"

definition newline :: string where
  "newline = [CHR 0x0A]"

definition backslash :: char where
  "backslash = CHR 0x5C"

definition doubleQuote :: char where
  "doubleQuote = CHR 0x22"

definition backtick :: char where
  "backtick = CHR 0x60"

subsection \<open>Regular expressions\<close>

text \<open>
  The backtracking matcher of ECMAScript, for the constructs the source's regular
  expressions use. A regular expression literal is transcribed constructor by
  constructor; the flags \<^verbatim>\<open>i\<close> (ignore case) and \<^verbatim>\<open>s\<close> (dot matches line terminators)
  are arguments of the matcher. A quantifier \<^verbatim>\<open>{min,max}\<close> is \<open>Rep min max greedy\<close>, with
  \<open>None\<close> for no upper bound.
\<close>

datatype class_item = Single char | Range char char | WhiteSpace

fun itemMatches :: "class_item \<Rightarrow> char \<Rightarrow> bool" where
  "itemMatches (Single a) c = (c = a)"
| "itemMatches (Range a b) c =
     ((of_char a :: nat) \<le> of_char c \<and> (of_char c :: nat) \<le> of_char b)"
| "itemMatches WhiteSpace c = isWhiteSpace c"

definition classMatches :: "bool \<Rightarrow> bool \<Rightarrow> class_item list \<Rightarrow> char \<Rightarrow> bool" where
  "classMatches ic neg items c =
     (let hit =
        (if ic then list_ex (\<lambda>i. itemMatches i c \<or> itemMatches i (toUpperChar c) \<or>
                                 itemMatches i (toLowerChar c)) items
         else list_ex (\<lambda>i. itemMatches i c) items)
      in if neg then \<not> hit else hit)"

fun stripLit :: "bool \<Rightarrow> string \<Rightarrow> string \<Rightarrow> string option" where
  "stripLit ic [] s = Some s"
| "stripLit ic (a # as) [] = None"
| "stripLit ic (a # as) (x # xs) =
     (if (if ic then toUpperChar x = toUpperChar a else x = a) then stripLit ic as xs
      else None)"

datatype rx =
    AnyChar
  | Class bool "class_item list"
  | Lit string
  | Seq rx rx
  | Alt rx rx
  | Rep nat "nat option" bool rx
  | Group nat rx
  | Bol
  | Eol

fun groupsOf :: "rx \<Rightarrow> nat list" where
  "groupsOf (Seq a b) = groupsOf a @ groupsOf b"
| "groupsOf (Alt a b) = groupsOf a @ groupsOf b"
| "groupsOf (Rep _ _ _ r) = groupsOf r"
| "groupsOf (Group n r) = n # groupsOf r"
| "groupsOf _ = []"

type_synonym captures = "nat \<Rightarrow> string option"

text \<open>A matcher state: the index reached, the input from there on, the captures so far.\<close>

type_synonym mstate = "nat \<times> string \<times> captures"

definition clearCaptures :: "nat list \<Rightarrow> captures \<Rightarrow> captures" where
  "clearCaptures ns c = (\<lambda>n. if n \<in> set ns then None else c n)"

fun repMin :: "rx \<Rightarrow> nat" where
  "repMin (Rep mn _ _ _) = mn"
| "repMin _ = 0"

text \<open>
  \<open>matcher ic da r x k\<close> matches \<open>r\<close> at state \<open>x\<close> and hands every end state to the
  continuation \<open>k\<close>, in the order ECMAScript tries them; the first success is the result.
  The quantifier follows RepeatMatcher: captures inside are reset per iteration, and an
  iteration that consumes nothing once the minimum is reached is rejected.
\<close>

function (sequential) matcher ::
  "bool \<Rightarrow> bool \<Rightarrow> rx \<Rightarrow> mstate \<Rightarrow> (mstate \<Rightarrow> 'r option) \<Rightarrow> 'r option" where
  "matcher ic da AnyChar (p, s, c) k =
     (case s of
        [] \<Rightarrow> None
      | x # xs \<Rightarrow> if da \<or> \<not> isLineTerminator x then k (Suc p, xs, c) else None)"
| "matcher ic da (Class neg items) (p, s, c) k =
     (case s of
        [] \<Rightarrow> None
      | x # xs \<Rightarrow> if classMatches ic neg items x then k (Suc p, xs, c) else None)"
| "matcher ic da (Lit l) (p, s, c) k =
     (case stripLit ic l s of None \<Rightarrow> None | Some s' \<Rightarrow> k (p + length l, s', c))"
| "matcher ic da (Seq a b) st k = matcher ic da a st (\<lambda>st'. matcher ic da b st' k)"
| "matcher ic da (Alt a b) st k =
     (case matcher ic da a st k of Some z \<Rightarrow> Some z | None \<Rightarrow> matcher ic da b st k)"
| "matcher ic da (Rep mn mx greedy r) (p, s, c) k =
     (if mx = Some 0 then k (p, s, c)
      else
        let d = (\<lambda>(p', s', c').
                  if mn = 0 \<and> length s \<le> length s' then None
                  else matcher ic da (Rep (mn - 1) (map_option (\<lambda>n. n - 1) mx) greedy r)
                         (p', s', c') k);
            xr = (p, s, clearCaptures (groupsOf r) c)
        in if mn \<noteq> 0 then matcher ic da r xr d
           else if \<not> greedy then
             (case k (p, s, c) of Some z \<Rightarrow> Some z | None \<Rightarrow> matcher ic da r xr d)
           else
             (case matcher ic da r xr d of Some z \<Rightarrow> Some z | None \<Rightarrow> k (p, s, c)))"
| "matcher ic da (Group n r) (p, s, c) k =
     matcher ic da r (p, s, c) (\<lambda>(p', s', c'). k (p', s', c'(n := Some (take (p' - p) s))))"
| "matcher ic da Bol (p, s, c) k = (if p = 0 then k (p, s, c) else None)"
| "matcher ic da Eol (p, s, c) k = (if s = [] then k (p, s, c) else None)"
  by pat_completeness auto
termination
  by (relation "inv_image (less_than <*lex*> less_than <*lex*> less_than)
        (\<lambda>(ic, da, r, (p, s, c), k). (size r, repMin r, length s))") auto

definition matchHere :: "bool \<Rightarrow> bool \<Rightarrow> rx \<Rightarrow> nat \<Rightarrow> string \<Rightarrow> mstate option" where
  "matchHere ic da r p s = matcher ic da r (p, s, \<lambda>_. None) Some"

text \<open>
  \<^verbatim>\<open>RegExp.prototype.exec\<close> from index \<open>p\<close>: the first index at or after \<open>p\<close> where the
  expression matches, with the end state of the match.
\<close>

fun scan :: "bool \<Rightarrow> bool \<Rightarrow> rx \<Rightarrow> nat \<Rightarrow> string \<Rightarrow> (nat \<times> mstate) option" where
  "scan ic da r p [] = map_option (Pair p) (matchHere ic da r p [])"
| "scan ic da r p (x # xs) =
     (case matchHere ic da r p (x # xs) of
        Some st \<Rightarrow> Some (p, st)
      | None \<Rightarrow> scan ic da r (Suc p) xs)"

text \<open>
  The loop \<^verbatim>\<open>while ((match = regex.exec(content)) !== null)\<close> of a global expression:
  the captures of the successive matches, each search starting where the last match
  ended. A match that consumes nothing would leave \<^verbatim>\<open>lastIndex\<close> in place and the loop
  would not end: that is the value \<open>None\<close>.
\<close>

function execAll :: "bool \<Rightarrow> bool \<Rightarrow> rx \<Rightarrow> nat \<Rightarrow> string \<Rightarrow> captures list option" where
  "execAll ic da r p s =
     (case scan ic da r p s of
        None \<Rightarrow> Some []
      | Some (b, (e, s', c)) \<Rightarrow>
          if length s' < length s then map_option (Cons c) (execAll ic da r e s')
          else None)"
  by pat_completeness auto
termination
  by (relation "measure (\<lambda>(ic, da, r, p, s). length s)") auto

text \<open>
  \<^verbatim>\<open>s.replace(regex, rep)\<close> for a global expression and a replacement without \<^verbatim>\<open>$\<close>: every
  match, found left to right, becomes \<open>rep\<close>; after an empty match the search moves one
  character on.
\<close>

function replaceAll :: "bool \<Rightarrow> bool \<Rightarrow> rx \<Rightarrow> string \<Rightarrow> nat \<Rightarrow> string \<Rightarrow> string" where
  "replaceAll ic da r rep p s =
     (case matchHere ic da r p s of
        Some (e, s', c) \<Rightarrow>
          if length s' < length s then rep @ replaceAll ic da r rep e s'
          else (case s of [] \<Rightarrow> rep | x # xs \<Rightarrow> rep @ x # replaceAll ic da r rep (Suc p) xs)
      | None \<Rightarrow> (case s of [] \<Rightarrow> [] | x # xs \<Rightarrow> x # replaceAll ic da r rep (Suc p) xs))"
  by pat_completeness auto
termination
  by (relation "measure (\<lambda>(ic, da, r, rep, p, s). length s)") auto

text \<open>\<^verbatim>\<open>s.replace(regex, rep)\<close> for an expression without the global flag: the first match only.\<close>

definition replaceFirst :: "bool \<Rightarrow> bool \<Rightarrow> rx \<Rightarrow> string \<Rightarrow> string \<Rightarrow> string" where
  "replaceFirst ic da r rep s =
     (case scan ic da r 0 s of
        None \<Rightarrow> s
      | Some (b, (e, s', c)) \<Rightarrow> take b s @ rep @ s')"

text \<open>\<^verbatim>\<open>s.match(regex)\<close> for an expression without the global flag: the captures of the first match.\<close>

definition matchFirst :: "bool \<Rightarrow> bool \<Rightarrow> rx \<Rightarrow> string \<Rightarrow> captures option" where
  "matchFirst ic da r s =
     (case scan ic da r 0 s of None \<Rightarrow> None | Some (b, (e, s', c)) \<Rightarrow> Some c)"

definition whiteSpaceClass :: rx where
  "whiteSpaceClass = Class False [WhiteSpace]"

text \<open>\<open>alternatives\<close> builds \<^verbatim>\<open>a|b|c\<close> from its branches; the list is never empty here.\<close>

fun alternatives :: "rx list \<Rightarrow> rx" where
  "alternatives [] = Lit []"
| "alternatives [r] = r"
| "alternatives (r # rs) = Alt r (alternatives rs)"

fun sequence :: "rx list \<Rightarrow> rx" where
  "sequence [] = Lit []"
| "sequence [r] = r"
| "sequence (r # rs) = Seq r (sequence rs)"

text \<open>
  An expression is consuming when every match of it, at every position of every string,
  takes at least one character; the loop over the matches of such an expression ends.
\<close>

definition consuming :: "bool \<Rightarrow> bool \<Rightarrow> rx \<Rightarrow> bool" where
  "consuming ic da r \<longleftrightarrow>
     (\<forall>p s e s' c'. matchHere ic da r p s = Some (e, s', c') \<longrightarrow> length s' < length s)"
subsection \<open>Paths (the POSIX functions of Node's \<^verbatim>\<open>path\<close> module)\<close>

text \<open>
  \<^verbatim>\<open>normalizeString\<close> with \<^verbatim>\<open>allowAboveRoot = false\<close>: empty segments and \<^verbatim>\<open>.\<close> are dropped,
  \<^verbatim>\<open>..\<close> removes the segment before it, and is dropped at the root.
\<close>

fun normalizeSegments :: "string list \<Rightarrow> string list \<Rightarrow> string list" where
  "normalizeSegments acc [] = acc"
| "normalizeSegments acc (seg # rest) =
     (if seg = [] \<or> seg = ''.'' then normalizeSegments acc rest
      else if seg = ''..'' then normalizeSegments (butlast acc) rest
      else normalizeSegments (acc @ [seg]) rest)"

text \<open>
  \<^verbatim>\<open>path.resolve\<close> reads its arguments from the last to the first until one is absolute
  and falls back on the working directory, which is an absolute path.
\<close>

fun resolveFrom :: "string \<Rightarrow> string list \<Rightarrow> string \<Rightarrow> string" where
  "resolveFrom cwd [] acc = cwd @ ''/'' @ acc"
| "resolveFrom cwd (p # ps) acc =
     (if p = [] then resolveFrom cwd ps acc
      else if hd p = CHR ''/'' then p @ ''/'' @ acc
      else resolveFrom cwd ps (p @ ''/'' @ acc))"

definition pathResolve :: "string \<Rightarrow> string list \<Rightarrow> string" where
  "pathResolve cwd args =
     ''/'' @ joinWith ''/'' (normalizeSegments [] (splitOn CHR ''/'' (resolveFrom cwd (rev args) [])))"

definition pathSegments :: "string \<Rightarrow> string list" where
  "pathSegments p = filter (\<lambda>s. s \<noteq> []) (splitOn CHR ''/'' p)"

text \<open>\<^verbatim>\<open>path.dirname\<close>, as applied to the absolute, normalized result of \<^verbatim>\<open>path.resolve\<close>.\<close>

definition dirname :: "string \<Rightarrow> string" where
  "dirname p = ''/'' @ joinWith ''/'' (butlast (pathSegments p))"

definition basename :: "string \<Rightarrow> string" where
  "basename p = (case pathSegments p of [] \<Rightarrow> [] | seg # segs \<Rightarrow> last (seg # segs))"

fun lastIndexOf :: "char \<Rightarrow> string \<Rightarrow> nat option" where
  "lastIndexOf c [] = None"
| "lastIndexOf c (x # xs) =
     (case lastIndexOf c xs of
        Some i \<Rightarrow> Some (Suc i)
      | None \<Rightarrow> if x = c then Some 0 else None)"

text \<open>
  \<^verbatim>\<open>path.extname\<close>: from the last dot of the last segment, and empty when there is no
  dot, when the dot opens the segment, or when the segment is \<^verbatim>\<open>..\<close>.
\<close>

definition extname :: "string \<Rightarrow> string" where
  "extname p =
     (let b = basename p in
      case lastIndexOf CHR ''.'' b of
        None \<Rightarrow> []
      | Some i \<Rightarrow> if i = 0 \<or> b = ''..'' then [] else drop i b)"

subsection \<open>The Safety Boundary (class \<^verbatim>\<open>DirectorySafety\<close>)\<close>

text \<open>
  The constructor reads the working directory and finds the project root by walking up
  the file system; both are fields here.
\<close>

record DirectorySafety =
  dsWorkingDirectory :: string
  dsProjectRoot :: string

definition isPathSafe :: "DirectorySafety \<Rightarrow> string \<Rightarrow> string \<Rightarrow> bool" where
  "isPathSafe ds cwd targetPath =
     (let resolvedPath = pathResolve cwd [targetPath];
          resolvedRoot = pathResolve cwd [dsProjectRoot ds]
      in startsWith resolvedPath resolvedRoot)"

text \<open>\<^verbatim>\<open>validatePath\<close> throws the message it returns here, and returns normally on \<open>None\<close>.\<close>

definition validatePath :: "DirectorySafety \<Rightarrow> string \<Rightarrow> string \<Rightarrow> string option" where
  "validatePath ds cwd targetPath =
     (if isPathSafe ds cwd targetPath then None
      else Some (''Access denied: Path '' @ [CHR 0x27] @ targetPath @ [CHR 0x27] @
                 '' is outside project boundary '' @ [CHR 0x27] @ dsProjectRoot ds @ [CHR 0x27]))"

text \<open>
  What it means for a resolved path to lie inside a directory: the directory's segments
  are the first segments of the path.
\<close>

definition insideDirectory :: "string \<Rightarrow> string \<Rightarrow> bool" where
  "insideDirectory dir p \<longleftrightarrow>
     take (length (pathSegments dir)) (pathSegments p) = pathSegments dir"

subsection \<open>The Content Parser\<close>

datatype op_type = Create | Modify | Delete

record FileOperation =
  path :: string
  opType :: op_type
  content :: string
  backup :: "string option"
  opDescription :: string
  estimatedLines :: nat

record GitConfig =
  autoCommit :: bool
  createFeatureBranches :: bool
  autoPush :: bool
  commitMessagePrefix :: string
  branchPrefix :: string

text \<open>
  A \<^verbatim>\<open>FileGenerator\<close>: its project root, its Safety Boundary and the configuration its
  \<^verbatim>\<open>GitManager\<close> returns from \<^verbatim>\<open>getConfig\<close>.
\<close>

record FileGenerator =
  projectRoot :: string
  directorySafety :: DirectorySafety
  gitConfig :: GitConfig

text \<open>
  The file system as the parser reads it: the working directory of the process,
  \<^verbatim>\<open>fs.existsSync\<close>, and \<^verbatim>\<open>fs.readFileSync\<close>, which returns the text or throws.
\<close>

record FileSystem =
  cwd :: string
  existsSync :: "string \<Rightarrow> bool"
  readFileSync :: "string \<Rightarrow> string + string"

text \<open>
  The expression of line 84, flags \<^verbatim>\<open>gs\<close>: a fence, an optional language, white space up
  to a line feed, an optional comment line whose text is group 1, and the shortest text
  up to the next fence as group 2.
\<close>

definition fileRegex :: rx where
  "fileRegex = sequence
     [Lit [backtick, backtick, backtick],
      Rep 0 (Some 1) True (alternatives
        [Lit ''typescript'', Lit ''javascript'', Lit ''jsx'', Lit ''tsx'', Lit ''python'',
         Lit ''go'', Lit ''rust'', Lit ''json'', Lit ''html'']),
      Rep 0 None True whiteSpaceClass,
      Lit newline,
      Rep 0 (Some 1) True (sequence
        [Lit ''//'', Rep 0 None True whiteSpaceClass, Group 1 (Rep 1 None False AnyChar),
         Lit newline]),
      Group 2 (Rep 0 None False AnyChar),
      Lit [backtick, backtick, backtick]]"

text \<open>The expression of line 121, flags \<^verbatim>\<open>gi\<close>; the path is group 1.\<close>

definition explicitFileRegex :: rx where
  "explicitFileRegex = sequence
     [alternatives [Lit ''Create'', Lit ''Update'', Lit ''Modify''],
      Rep 1 None True whiteSpaceClass,
      Rep 0 (Some 1) True (sequence [Lit ''file'', Rep 1 None True whiteSpaceClass]),
      Rep 0 (Some 1) True (Class False [Single backtick, Single doubleQuote]),
      Group 1 (sequence
        [Rep 1 None True (Class True [Single backtick, Single doubleQuote, WhiteSpace]),
         Lit ''.'',
         Rep 1 (Some 4) True (Class False [Range CHR ''a'' CHR ''z''])]),
      Rep 0 (Some 1) True (Class False [Single backtick, Single doubleQuote])]"

text \<open>
  The expressions of \<^verbatim>\<open>extractFilePath\<close>. In the source the patterns of lines 155 to 157
  are written with a doubled backslash, so they ask for a backslash character followed
  by the letter \<^verbatim>\<open>s\<close> (or by any character, in line 157).
\<close>

definition commentPrefixRegex :: rx where
  "commentPrefixRegex = sequence
     [Bol, Group 1 (alternatives [Lit ''//'', Lit ''#'', Lit ''<!--'']),
      Rep 0 None True whiteSpaceClass]"

definition filePattern :: rx where
  "filePattern = sequence
     [Bol, Lit ''File:'', Lit [backslash], Rep 0 None True (Lit ''s''),
      Group 1 (Rep 1 None True AnyChar), Eol]"

definition pathPattern :: rx where
  "pathPattern = sequence
     [Bol, Lit ''Path:'', Lit [backslash], Rep 0 None True (Lit ''s''),
      Group 1 (Rep 1 None True AnyChar), Eol]"

definition extensionPattern :: rx where
  "extensionPattern = sequence
     [Bol,
      Group 1 (sequence
        [Rep 1 None True AnyChar, Lit [backslash], AnyChar,
         alternatives
           [Lit ''ts'', Lit ''tsx'', Lit ''js'', Lit ''jsx'', Lit ''py'', Lit ''go'', Lit ''rs'',
            Lit ''java'', Lit ''cpp'', Lit ''h'', Lit ''css'', Lit ''scss'', Lit ''json'',
            Lit ''md'', Lit ''yml'', Lit ''yaml'']]),
      Eol]"

definition anyPattern :: rx where
  "anyPattern = sequence [Bol, Group 1 (Rep 1 None True AnyChar), Eol]"

text \<open>The patterns with their \<^verbatim>\<open>i\<close> flag; \<^verbatim>\<open>match[1].trim()\<close> of the first that matches.\<close>

fun firstPattern :: "(bool \<times> rx) list \<Rightarrow> string \<Rightarrow> string option" where
  "firstPattern [] cleaned = None"
| "firstPattern ((ic, r) # rest) cleaned =
     (case matchFirst ic False r cleaned of
        Some c \<Rightarrow> Some (trim (case c 1 of None \<Rightarrow> [] | Some g \<Rightarrow> g))
      | None \<Rightarrow> firstPattern rest cleaned)"

definition extractFilePath :: "string \<Rightarrow> string option" where
  "extractFilePath comment =
     (let cleaned = trim (replaceFirst False False commentPrefixRegex [] comment)
      in firstPattern
           [(True, filePattern), (True, pathPattern), (True, extensionPattern),
            (False, anyPattern)] cleaned)"

definition getFileType :: "string \<Rightarrow> string" where
  "getFileType filePath =
     (let ext = toLowerCase (extname filePath) in
      case map_of
        [(''.ts'', ''TypeScript file''), (''.tsx'', ''React component''),
         (''.js'', ''JavaScript file''), (''.jsx'', ''React component''),
         (''.py'', ''Python module''), (''.go'', ''Go file''), (''.rs'', ''Rust file''),
         (''.java'', ''Java class''), (''.cpp'', ''C++ file''), (''.h'', ''Header file''),
         (''.css'', ''Stylesheet''), (''.scss'', ''Sass stylesheet''),
         (''.json'', ''Configuration file''), (''.md'', ''Documentation''),
         (''.yml'', ''YAML configuration''), (''.yaml'', ''YAML configuration'')] ext of
        Some t \<Rightarrow> t
      | None \<Rightarrow> ''file'')"

definition generateFileDescription :: "string \<Rightarrow> bool \<Rightarrow> string" where
  "generateFileDescription filePath exists =
     (let fileName = basename filePath;
          fileType = getFileType filePath;
          action = (if exists then ''Modify'' else ''Create'')
      in action @ '' '' @ fileType @ '' '' @ fileName)"

text \<open>
  The body of the first loop for one match. A falsy path comment or path (absent or
  empty) skips the match; a path the Safety Boundary rejects, and a file that exists
  but cannot be read, end in the \<^verbatim>\<open>catch\<close> block, which only warns.
\<close>

definition fencedStep ::
  "FileGenerator \<Rightarrow> FileSystem \<Rightarrow> FileOperation list \<Rightarrow> captures \<Rightarrow> FileOperation list" where
  "fencedStep fg fs files c =
     (case c 1 of
        None \<Rightarrow> files
      | Some pathComment \<Rightarrow>
          if pathComment = [] then files
          else
            (case extractFilePath pathComment of
               None \<Rightarrow> files
             | Some filePath \<Rightarrow>
                 if filePath = [] then files
                 else
                   let code = (case c 2 of None \<Rightarrow> [] | Some t \<Rightarrow> t);
                       fullPath = pathResolve (cwd fs) [projectRoot fg, filePath]
                   in case validatePath (directorySafety fg) (cwd fs) fullPath of
                        Some err \<Rightarrow> files
                      | None \<Rightarrow>
                          let exists = existsSync fs fullPath;
                              operation =
                                \<lparr>path = filePath,
                                 opType = (if exists then Modify else Create),
                                 content = trim code,
                                 backup = None,
                                 opDescription = generateFileDescription filePath exists,
                                 estimatedLines = length (splitOn CHR 0x0A code)\<rparr>
                          in if exists then
                               (case readFileSync fs fullPath of
                                  Inl err \<Rightarrow> files
                                | Inr old \<Rightarrow> files @ [operation\<lparr>backup := Some old\<rparr>])
                             else files @ [operation]))"

text \<open>The body of the second loop for one match; only here is the path looked up in \<open>files\<close>.\<close>

definition explicitStep ::
  "FileGenerator \<Rightarrow> FileSystem \<Rightarrow> FileOperation list \<Rightarrow> captures \<Rightarrow> FileOperation list" where
  "explicitStep fg fs files c =
     (let filePath = (case c 1 of None \<Rightarrow> [] | Some t \<Rightarrow> t) in
      if list_ex (\<lambda>f. path f = filePath) files then files
      else
        let fullPath = pathResolve (cwd fs) [projectRoot fg, filePath]
        in case validatePath (directorySafety fg) (cwd fs) fullPath of
             Some err \<Rightarrow> files
           | None \<Rightarrow>
               let exists = existsSync fs fullPath
               in files @
                  [\<lparr>path = filePath,
                    opType = (if exists then Modify else Create),
                    content = ''// TODO: Implementation needed'',
                    backup = None,
                    opDescription = generateFileDescription filePath exists,
                    estimatedLines = 10\<rparr>])"

definition parseGeneratedContent ::
  "FileGenerator \<Rightarrow> FileSystem \<Rightarrow> string \<Rightarrow> FileOperation list option" where
  "parseGeneratedContent fg fs text =
     (case execAll False True fileRegex 0 text of
        None \<Rightarrow> None
      | Some fenced \<Rightarrow>
          (case execAll True False explicitFileRegex 0 text of
             None \<Rightarrow> None
           | Some mentions \<Rightarrow>
               Some (foldl (explicitStep fg fs) (foldl (fencedStep fg fs) [] fenced) mentions)))"

subsection \<open>The Plan Builder\<close>

datatype git_strategy = NewBranch | CurrentBranch

record FileGenerationPlan =
  feature :: string
  files :: "FileOperation list"
  estimatedCost :: real
  gitStrategy :: git_strategy
  branchName :: "string option"
  summary :: string

text \<open>
  \<^verbatim>\<open>sanitizeFeatureName\<close>, lines 203 to 210. The first two expressions are written with a
  doubled backslash: the character class keeps lower-case letters, digits, the
  backslash and the hyphen (the letter \<^verbatim>\<open>s\<close> is a letter already), and the second
  expression asks for a backslash followed by letters \<^verbatim>\<open>s\<close>.
\<close>

definition sanitizeFeatureName :: "string \<Rightarrow> string" where
  "sanitizeFeatureName feat =
     take 50
       (replaceAll False False (Rep 1 None True (Lit ''-'')) ''-'' 0
         (replaceAll False False (Seq (Lit [backslash]) (Rep 1 None True (Lit ''s''))) ''-'' 0
           (replaceAll False False
              (Class True [Range CHR ''a'' CHR ''z'', Range CHR ''0'' CHR ''9'',
                           Single backslash, Single CHR ''s'', Single CHR ''-'']) [] 0
              (toLowerCase feat))))"

definition generatePlanSummary :: "FileOperation list \<Rightarrow> string \<Rightarrow> string" where
  "generatePlanSummary fs feat =
     (let createCount = length (filter (\<lambda>f. opType f = Create) fs);
          modifyCount = length (filter (\<lambda>f. opType f = Modify) fs);
          totalLines = foldl (\<lambda>total f. total + estimatedLines f) 0 fs;
          parts1 = (if createCount > 0
                    then [showNat createCount @ '' new file'' @ (if createCount > 1 then ''s'' else [])]
                    else []);
          parts2 = (if modifyCount > 0
                    then parts1 @ [showNat modifyCount @ '' modified file'' @
                                   (if modifyCount > 1 then ''s'' else [])]
                    else parts1)
      in ''Generate '' @ feat @ '': '' @ joinWith '', '' parts2 @
         '' (~'' @ showNat totalLines @ '' lines)'')"

definition createGenerationPlan ::
  "FileGenerator \<Rightarrow> FileSystem \<Rightarrow> string \<Rightarrow> string \<Rightarrow> real \<Rightarrow> FileGenerationPlan option" where
  "createGenerationPlan fg fs feat generatedContent cost =
     (case parseGeneratedContent fg fs generatedContent of
        None \<Rightarrow> None
      | Some fls \<Rightarrow>
          let strategy = (if createFeatureBranches (gitConfig fg) then NewBranch else CurrentBranch);
              branch = (if strategy = NewBranch
                        then Some (branchPrefix (gitConfig fg) @ sanitizeFeatureName feat)
                        else None)
          in Some \<lparr>feature = feat, files = fls, estimatedCost = cost, gitStrategy = strategy,
                   branchName = branch, summary = generatePlanSummary fls feat\<rparr>)"

subsection \<open>The Approval State Machine and the Execution Engine\<close>

datatype decision = Approve | Edit | Skip | Auto

record GenerationResult =
  success :: bool
  filesCreated :: "string list"
  filesModified :: "string list"
  filesSkipped :: "string list"
  errors :: "string list"
  gitCommit :: "string option"
  branchCreated :: "string option"

text \<open>
  The collaborators of one \<^verbatim>\<open>executeGenerationPlan\<close> run. The run handles each operation
  once, so what a collaborator does for the operation at position \<open>i\<close> of the plan is a
  function of \<open>i\<close>: \<open>approvalCallback env i op\<close> is the decision the callback resolves to
  when it is awaited for that operation, or the error it rejects with; the \<^verbatim>\<open>fs\<close>
  functions return the error they throw there, if any. The version-control calls are made
  at most once per run. Errors are the strings \<^verbatim>\<open>${error}\<close> prints.
\<close>

record ExecEnv =
  processCwd :: string
  approvalCallback :: "nat \<Rightarrow> FileOperation \<Rightarrow> string + decision"
  fsEnsureDir :: "nat \<Rightarrow> string \<Rightarrow> string option"
  fsWriteFile :: "nat \<Rightarrow> string \<Rightarrow> string \<Rightarrow> string option"
  fsPathExists :: "nat \<Rightarrow> string \<Rightarrow> bool"
  fsRemove :: "nat \<Rightarrow> string \<Rightarrow> string option"
  gitGetStatus :: "string + bool"
  gitCreateBranch :: "string \<Rightarrow> string option"
  gitGenerateCommitMessage :: "string list \<Rightarrow> string \<Rightarrow> string"
  gitCommitFiles :: "string \<Rightarrow> string list \<Rightarrow> string option"

text \<open>\<^verbatim>\<open>executeFileOperation\<close>: the error it throws for the operation at position \<open>i\<close>, if any.\<close>

definition executeFileOperation ::
  "ExecEnv \<Rightarrow> FileGenerator \<Rightarrow> nat \<Rightarrow> FileOperation \<Rightarrow> string option" where
  "executeFileOperation env fg i operation =
     (let fullPath = pathResolve (processCwd env) [projectRoot fg, path operation] in
      case fsEnsureDir env i (dirname fullPath) of
        Some err \<Rightarrow> Some err
      | None \<Rightarrow>
          (case opType operation of
             Create \<Rightarrow> fsWriteFile env i fullPath (content operation)
           | Modify \<Rightarrow> fsWriteFile env i fullPath (content operation)
           | Delete \<Rightarrow>
               if fsPathExists env i fullPath then fsRemove env i fullPath else None))"

text \<open>
  What a run does that its result does not show: \<open>Asked i\<close> when the decision callback is
  awaited for the operation at position \<open>i\<close>, \<open>Applied i\<close> when \<^verbatim>\<open>executeFileOperation\<close> is
  called for it.
\<close>

datatype event = Asked nat | Applied nat

record LoopState =
  result :: GenerationResult
  autoMode :: bool
  trace :: "event list"

text \<open>The \<^verbatim>\<open>catch\<close> block of the loop.\<close>

definition recordFailure :: "FileOperation \<Rightarrow> string \<Rightarrow> LoopState \<Rightarrow> LoopState" where
  "recordFailure operation err st =
     st\<lparr>result := (result st)
          \<lparr>errors := errors (result st) @ [''Failed to process '' @ path operation @ '': '' @ err],
           success := False\<rparr>\<rparr>"

text \<open>The \<^verbatim>\<open>switch\<close> on the approval; it has no case for \<^verbatim>\<open>auto\<close>, which never reaches it.\<close>

definition applyDecision ::
  "ExecEnv \<Rightarrow> FileGenerator \<Rightarrow> nat \<Rightarrow> FileOperation \<Rightarrow> decision \<Rightarrow> LoopState \<Rightarrow> LoopState" where
  "applyDecision env fg i operation approval st =
     (case approval of
        Approve \<Rightarrow>
          (let st1 = st\<lparr>trace := trace st @ [Applied i]\<rparr> in
           case executeFileOperation env fg i operation of
             Some err \<Rightarrow> recordFailure operation err st1
           | None \<Rightarrow>
               (case opType operation of
                  Create \<Rightarrow>
                    st1\<lparr>result := (result st1)
                          \<lparr>filesCreated := filesCreated (result st1) @ [path operation]\<rparr>\<rparr>
                | Modify \<Rightarrow>
                    st1\<lparr>result := (result st1)
                          \<lparr>filesModified := filesModified (result st1) @ [path operation]\<rparr>\<rparr>
                | Delete \<Rightarrow> st1))
      | Skip \<Rightarrow>
          st\<lparr>result := (result st)
               \<lparr>filesSkipped := filesSkipped (result st) @ [path operation]\<rparr>\<rparr>
      | Edit \<Rightarrow>
          st\<lparr>result := (result st)
               \<lparr>filesSkipped := filesSkipped (result st) @ [path operation],
                errors := errors (result st) @
                  [''Edit mode not yet implemented for '' @ path operation]\<rparr>\<rparr>
      | Auto \<Rightarrow> st)"

text \<open>The body of the loop for the operation at position \<open>i\<close>.\<close>

definition processOperation ::
  "ExecEnv \<Rightarrow> FileGenerator \<Rightarrow> nat \<Rightarrow> FileOperation \<Rightarrow> LoopState \<Rightarrow> LoopState" where
  "processOperation env fg i operation st =
     (if autoMode st then applyDecision env fg i operation Approve st
      else
        let st1 = st\<lparr>trace := trace st @ [Asked i]\<rparr> in
        case approvalCallback env i operation of
          Inl err \<Rightarrow> recordFailure operation err st1
        | Inr approval \<Rightarrow>
            if approval = Auto
            then applyDecision env fg i operation Approve (st1\<lparr>autoMode := True\<rparr>)
            else applyDecision env fg i operation approval st1)"

fun processOperations ::
  "ExecEnv \<Rightarrow> FileGenerator \<Rightarrow> nat \<Rightarrow> FileOperation list \<Rightarrow> LoopState \<Rightarrow> LoopState" where
  "processOperations env fg i [] st = st"
| "processOperations env fg i (operation # rest) st =
     processOperations env fg (Suc i) rest (processOperation env fg i operation st)"

text \<open>The branch set-up before the loop; a branch name that is absent or empty is falsy.\<close>

definition setupBranch ::
  "ExecEnv \<Rightarrow> FileGenerationPlan \<Rightarrow> GenerationResult \<Rightarrow> GenerationResult" where
  "setupBranch env plan r =
     (if gitStrategy plan = NewBranch \<and>
         (case branchName plan of None \<Rightarrow> False | Some b \<Rightarrow> b \<noteq> [])
      then
        (case gitGetStatus env of
           Inl err \<Rightarrow> r\<lparr>errors := errors r @ [''Git branch creation failed: '' @ err]\<rparr>
         | Inr isGitRepo \<Rightarrow>
             if isGitRepo then
               (case gitCreateBranch env (sanitizeFeatureName (feature plan)) of
                  Some err \<Rightarrow> r\<lparr>errors := errors r @ [''Git branch creation failed: '' @ err]\<rparr>
                | None \<Rightarrow> r\<lparr>branchCreated := branchName plan\<rparr>)
             else r)
      else r)"

text \<open>The commit after the loop.\<close>

definition autoCommitFiles ::
  "ExecEnv \<Rightarrow> FileGenerator \<Rightarrow> FileGenerationPlan \<Rightarrow> GenerationResult \<Rightarrow> GenerationResult" where
  "autoCommitFiles env fg plan r =
     (if autoCommit (gitConfig fg) \<and>
         (length (filesCreated r) > 0 \<or> length (filesModified r) > 0)
      then
        let allFiles = filesCreated r @ filesModified r;
            message = gitGenerateCommitMessage env allFiles (feature plan)
        in case gitCommitFiles env message allFiles of
             Some err \<Rightarrow> r\<lparr>errors := errors r @ [''Auto-commit failed: '' @ err]\<rparr>
           | None \<Rightarrow> r\<lparr>gitCommit := Some message\<rparr>
      else r)"

definition initialResult :: GenerationResult where
  "initialResult =
     \<lparr>success = True, filesCreated = [], filesModified = [], filesSkipped = [], errors = [],
      gitCommit = None, branchCreated = None\<rparr>"

text \<open>\<^verbatim>\<open>executeGenerationPlan\<close>: the result it returns, and the trace of the run.\<close>

definition executeGenerationPlan ::
  "ExecEnv \<Rightarrow> FileGenerator \<Rightarrow> FileGenerationPlan \<Rightarrow> GenerationResult \<times> event list" where
  "executeGenerationPlan env fg plan =
     (let st = processOperations env fg 0 (files plan)
                 \<lparr>result = setupBranch env plan initialResult, autoMode = False, trace = []\<rparr>
      in (autoCommitFiles env fg plan (result st), trace st))"

text \<open>
  Notions that describe a run from the plan and the collaborators alone. Auto-approve is
  on at position \<open>i\<close> when the callback answers \<^verbatim>\<open>auto\<close> at an earlier position; the
  operation at \<open>i\<close> is applied when auto-approve is on or the callback answers
  \<^verbatim>\<open>approve\<close> or \<^verbatim>\<open>auto\<close>; processing it throws when the awaited callback rejects or
  when applying it throws.
\<close>

definition autoBefore :: "ExecEnv \<Rightarrow> FileOperation list \<Rightarrow> nat \<Rightarrow> bool" where
  "autoBefore env ops i \<longleftrightarrow> (\<exists>j<i. approvalCallback env j (ops ! j) = Inr Auto)"

definition appliedAt :: "ExecEnv \<Rightarrow> FileOperation list \<Rightarrow> nat \<Rightarrow> bool" where
  "appliedAt env ops i \<longleftrightarrow>
     autoBefore env ops i \<or> approvalCallback env i (ops ! i) = Inr Approve \<or>
     approvalCallback env i (ops ! i) = Inr Auto"

definition threwAt :: "ExecEnv \<Rightarrow> FileGenerator \<Rightarrow> FileOperation list \<Rightarrow> nat \<Rightarrow> bool" where
  "threwAt env fg ops i \<longleftrightarrow>
     (\<not> autoBefore env ops i \<and> isl (approvalCallback env i (ops ! i))) \<or>
     (appliedAt env ops i \<and> executeFileOperation env fg i (ops ! i) \<noteq> None)"

text \<open>The state in which the loop starts.\<close>

definition initialState :: "ExecEnv \<Rightarrow> FileGenerationPlan \<Rightarrow> LoopState" where
  "initialState env plan =
     \<lparr>result = setupBranch env plan initialResult, autoMode = False, trace = []\<rparr>"

text \<open>The result of a step whose operation is approved.\<close>

definition approvedOutcome ::
  "ExecEnv \<Rightarrow> FileGenerator \<Rightarrow> nat \<Rightarrow> FileOperation \<Rightarrow> GenerationResult \<Rightarrow> GenerationResult" where
  "approvedOutcome env fg i x r =
     (case executeFileOperation env fg i x of
        Some err \<Rightarrow>
          r\<lparr>errors := errors r @ [''Failed to process '' @ path x @ '': '' @ err],
            success := False\<rparr>
      | None \<Rightarrow>
          (case opType x of
             Create \<Rightarrow> r\<lparr>filesCreated := filesCreated r @ [path x]\<rparr>
           | Modify \<Rightarrow> r\<lparr>filesModified := filesModified r @ [path x]\<rparr>
           | Delete \<Rightarrow> r))"

text \<open>
  The rule of the success flag in the specification's words: false exactly when applying
  some operation threw.
\<close>

definition failsOnlyWhenApplyThrew ::
  "ExecEnv \<Rightarrow> FileGenerator \<Rightarrow> FileGenerationPlan \<Rightarrow> bool" where
  "failsOnlyWhenApplyThrew env fg plan \<longleftrightarrow>
     (success (fst (executeGenerationPlan env fg plan)) = False \<longleftrightarrow>
      (\<exists>i<length (files plan).
         Applied i \<in> set (snd (executeGenerationPlan env fg plan)) \<and>
         executeFileOperation env fg i (files plan ! i) \<noteq> None))"

subsection \<open>Example generators, plans and collaborators\<close>

definition defaultGitConfig :: GitConfig where
  "defaultGitConfig =
     \<lparr>autoCommit = False, createFeatureBranches = True, autoPush = False,
      commitMessagePrefix = ''[HyperCode]'', branchPrefix = ''hypercode-''\<rparr>"

text \<open>A generator for the project \<^verbatim>\<open>/home/u/app\<close>, with the default configuration of \<^verbatim>\<open>GitManager\<close>.\<close>

definition appGenerator :: FileGenerator where
  "appGenerator =
     \<lparr>projectRoot = ''/home/u/app'',
      directorySafety = \<lparr>dsWorkingDirectory = ''/home/u/app'', dsProjectRoot = ''/home/u/app''\<rparr>,
      gitConfig = defaultGitConfig\<rparr>"

text \<open>A file system in which none of the mentioned files exists yet.\<close>

definition emptyProject :: FileSystem where
  "emptyProject =
     \<lparr>cwd = ''/home/u/app'', existsSync = (\<lambda>p. False),
      readFileSync = (\<lambda>p. Inl ''Error: ENOENT'')\<rparr>"

definition mkOperation :: "string \<Rightarrow> op_type \<Rightarrow> FileOperation" where
  "mkOperation p t =
     \<lparr>path = p, opType = t, content = ''export {}'', backup = None, opDescription = p,
      estimatedLines = 1\<rparr>"

definition planOfThree :: FileGenerationPlan where
  "planOfThree =
     \<lparr>feature = ''login'',
      files = [mkOperation ''a.ts'' Create, mkOperation ''b.ts'' Modify,
               mkOperation ''c.ts'' Create],
      estimatedCost = 0, gitStrategy = CurrentBranch, branchName = None,
      summary = ''Generate login''\<rparr>"

definition planOfOne :: FileGenerationPlan where
  "planOfOne =
     \<lparr>feature = ''login'', files = [mkOperation ''a.ts'' Create],
      estimatedCost = 0, gitStrategy = CurrentBranch, branchName = None,
      summary = ''Generate login''\<rparr>"

text \<open>Collaborators that never fail, around a given decision callback.\<close>

definition quietEnv :: "(nat \<Rightarrow> FileOperation \<Rightarrow> string + decision) \<Rightarrow> ExecEnv" where
  "quietEnv cb =
     \<lparr>processCwd = ''/home/u/app'', approvalCallback = cb,
      fsEnsureDir = (\<lambda>i d. None), fsWriteFile = (\<lambda>i p c. None),
      fsPathExists = (\<lambda>i p. False), fsRemove = (\<lambda>i p. None),
      gitGetStatus = Inr False, gitCreateBranch = (\<lambda>n. None),
      gitGenerateCommitMessage = (\<lambda>fs f. ''Add '' @ f),
      gitCommitFiles = (\<lambda>m fs. None)\<rparr>"

text \<open>The callback approves the first operation, answers \<^verbatim>\<open>auto\<close> for the second and would skip any later one.\<close>

definition envAutoAtSecond :: ExecEnv where
  "envAutoAtSecond =
     quietEnv (\<lambda>i x. if i = 0 then Inr Approve else if i = 1 then Inr Auto else Inr Skip)"

text \<open>Every operation is approved; the write of the second one fails.\<close>

definition envSecondWriteFails :: ExecEnv where
  "envSecondWriteFails =
     (quietEnv (\<lambda>i x. Inr Approve))
       \<lparr>fsWriteFile := (\<lambda>i p c. if i = 1 then Some ''Error: EACCES'' else None)\<rparr>"

text \<open>The decision callback rejects.\<close>

definition envCallbackRejects :: ExecEnv where
  "envCallbackRejects = quietEnv (\<lambda>i x. Inl ''Error: readline was closed'')"

text \<open>Generated texts.\<close>

definition fence :: string where
  "fence = [backtick, backtick, backtick]"

definition textTwoBlocksOnePath :: string where
  "textTwoBlocksOnePath =
     fence @ ''typescript'' @ newline @ ''// src/a.ts'' @ newline @ ''let x = 1;'' @ newline @
     fence @ newline @
     fence @ ''typescript'' @ newline @ ''// src/a.ts'' @ newline @ ''let x = 2;'' @ newline @
     fence @ newline"

definition textSiblingDirectory :: string where
  "textSiblingDirectory = ''Create ../app-secrets/key.ts''"

section \<open>Properties of the Task Ledger\<close>

subsection \<open>Lookup\<close>

lemma findIndex_None: "findIndex P xs = None \<longleftrightarrow> (\<forall>x\<in>set xs. \<not> P x)"
  by (induction xs) auto

lemma findIndex_Some:
  "findIndex P xs = Some i \<Longrightarrow> i < length xs \<and> P (xs ! i) \<and> (\<forall>j<i. \<not> P (xs ! j))"
proof (induction xs arbitrary: i)
  case Nil
  then show ?case by simp
next
  case (Cons x xs)
  show ?case
  proof (cases "P x")
    case True
    with Cons.prems show ?thesis by simp
  next
    case False
    with Cons.prems obtain k where k: "findIndex P xs = Some k" "i = Suc k" by auto
    from Cons.IH[OF k(1)] False k(2) show ?thesis
      by (auto simp: nth_Cons split: nat.splits)
  qed
qed

lemma findTodoFrom_None:
  "findTodoFrom k gs d = None \<longleftrightarrow> (\<forall>g\<in>set gs. \<forall>t\<in>set (todos g). tid t \<noteq> d)"
proof (induction gs arbitrary: k)
  case Nil
  then show ?case by simp
next
  case (Cons g gs)
  show ?case
  proof (cases "findIndex (\<lambda>t. tid t = d) (todos g)")
    case None
    from None have n: "\<forall>x\<in>set (todos g). tid x \<noteq> d" by (simp add: findIndex_None)
    show ?thesis using Cons.IH[of "Suc k"] n by (simp add: None)
  next
    case (Some j)
    from findIndex_Some[OF Some] have "todos g ! j \<in> set (todos g)" "tid (todos g ! j) = d"
      by simp_all
    with Some show ?thesis by auto
  qed
qed

lemma findTodoFrom_Some:
  "findTodoFrom k gs d = Some (gi, ti) \<Longrightarrow>
     k \<le> gi \<and> gi - k < length gs \<and> ti < length (todos (gs ! (gi - k))) \<and>
     tid (todos (gs ! (gi - k)) ! ti) = d"
proof (induction gs arbitrary: k)
  case Nil
  then show ?case by simp
next
  case (Cons g gs)
  show ?case
  proof (cases "findIndex (\<lambda>t. tid t = d) (todos g)")
    case None
    with Cons.prems have "findTodoFrom (Suc k) gs d = Some (gi, ti)" by simp
    from Cons.IH[OF this] have ih: "Suc k \<le> gi" "gi - Suc k < length gs"
      "ti < length (todos (gs ! (gi - Suc k)))" "tid (todos (gs ! (gi - Suc k)) ! ti) = d"
      by simp_all
    from ih(1) have e: "gi - k = Suc (gi - Suc k)" by simp
    from ih show ?thesis unfolding e by simp
  next
    case (Some j)
    with Cons.prems have "gi = k" "ti = j" by auto
    with findIndex_Some[OF Some] show ?thesis by simp
  qed
qed

lemma findTodo_None: "findTodo m d = None \<longleftrightarrow> (\<forall>t\<in>set (getAllTodos m). tid t \<noteq> d)"
  by (auto simp: findTodo_def getAllTodos_def findTodoFrom_None)

lemma findTodo_Some:
  assumes "findTodo m d = Some (gi, ti)"
  shows "gi < length (groups m)" "ti < length (todos (groups m ! gi))"
    "tid (todoAt m (gi, ti)) = d" "todoAt m (gi, ti) \<in> set (getAllTodos m)"
proof -
  from findTodoFrom_Some[OF assms[unfolded findTodo_def]]
  show a: "gi < length (groups m)" and b: "ti < length (todos (groups m ! gi))"
    and "tid (todoAt m (gi, ti)) = d"
    by (simp_all add: todoAt_def)
  from a b show "todoAt m (gi, ti) \<in> set (getAllTodos m)"
    unfolding todoAt_def getAllTodos_def by (auto intro!: bexI[of _ "groups m ! gi"])
qed

lemma set_insertSorted: "set (insertSorted c x ys) = insert x (set ys)"
  by (induction ys) auto

lemma set_jsSort: "set (jsSort c xs) = set xs"
  unfolding jsSort_def by (induction xs) (auto simp: set_insertSorted)

lemma sorted_insertSorted:
  assumes tot: "\<And>a b. \<not> c a b \<le> 0 \<Longrightarrow> c b a \<le> 0"
    and tr: "\<And>a b d. c a b \<le> 0 \<Longrightarrow> c b d \<le> 0 \<Longrightarrow> c a d \<le> 0"
  shows "sorted_wrt (\<lambda>a b. c a b \<le> 0) ys \<Longrightarrow> sorted_wrt (\<lambda>a b. c a b \<le> 0) (insertSorted c x ys)"
proof (induction ys)
  case Nil
  then show ?case by simp
next
  case (Cons y ys)
  show ?case
  proof (cases "c x y \<le> 0")
    case True
    with Cons.prems tr show ?thesis by auto
  next
    case False
    with Cons tot show ?thesis by (auto simp: set_insertSorted)
  qed
qed

lemma sorted_jsSort:
  assumes tot: "\<And>a b. \<not> c a b \<le> 0 \<Longrightarrow> c b a \<le> 0"
    and tr: "\<And>a b d. c a b \<le> 0 \<Longrightarrow> c b d \<le> 0 \<Longrightarrow> c a d \<le> 0"
  shows "sorted_wrt (\<lambda>a b. c a b \<le> 0) (jsSort c xs)"
  unfolding jsSort_def
  by (induction xs) (auto intro: sorted_insertSorted[OF tot tr])

lemma compareTodos_le:
  "compareTodos a b \<le> 0 \<longleftrightarrow>
     priorityWeight (priority b) < priorityWeight (priority a) \<or>
     (priorityWeight (priority b) = priorityWeight (priority a) \<and> createdAt a \<le> createdAt b)"
  by (auto simp: compareTodos_def Let_def)

lemma jsSort_head_least:
  assumes "jsSort compareTodos xs = t # rest" "u \<in> set xs"
  shows "compareTodos t u \<le> 0"
proof -
  have s: "sorted_wrt (\<lambda>a b. compareTodos a b \<le> 0) (jsSort compareTodos xs)"
    by (rule sorted_jsSort) (auto simp: compareTodos_le)
  have refl: "compareTodos t t \<le> 0" by (simp add: compareTodos_le)
  from assms(2) have "u \<in> set (jsSort compareTodos xs)" by (simp add: set_jsSort)
  with assms(1) s refl show ?thesis by auto
qed

lemma jsSort_Nil: "jsSort c xs = [] \<longleftrightarrow> xs = []"
  by (metis set_jsSort set_empty)

subsection \<open>Scheduling\<close>

lemma areDependenciesMet_iff:
  "areDependenciesMet m t \<longleftrightarrow>
     (\<forall>d\<in>set (dependencyIds t). \<exists>r. findTodo m d = Some r \<and> status (todoAt m r) = Completed)"
  by (auto simp: areDependenciesMet_def dependencyIds_def list_all_iff split: option.splits)

lemma getNextTodo_None:
  "getNextTodo m = None \<longleftrightarrow>
     (\<forall>t\<in>set (getAllTodos m). \<not> (status t = Pending \<and> areDependenciesMet m t))"
proof -
  have "getNextTodo m = None \<longleftrightarrow>
      jsSort compareTodos (filter (areDependenciesMet m)
        (filter (\<lambda>t. status t = Pending) (getAllTodos m))) = []"
    by (simp add: getNextTodo_def split: list.splits)
  also have "\<dots> \<longleftrightarrow> filter (areDependenciesMet m)
        (filter (\<lambda>t. status t = Pending) (getAllTodos m)) = []"
    by (rule jsSort_Nil)
  also have "\<dots> \<longleftrightarrow> (\<forall>t\<in>set (getAllTodos m). \<not> (status t = Pending \<and> areDependenciesMet m t))"
    by (auto simp: filter_empty_conv)
  finally show ?thesis .
qed

lemma getNextTodo_Some:
  assumes "getNextTodo m = Some t"
  shows "t \<in> set (getAllTodos m)" "status t = Pending" "areDependenciesMet m t"
    "\<And>u. u \<in> set (getAllTodos m) \<Longrightarrow> status u = Pending \<Longrightarrow> areDependenciesMet m u
       \<Longrightarrow> compareTodos t u \<le> 0"
proof -
  let ?el = "filter (areDependenciesMet m) (filter (\<lambda>t. status t = Pending) (getAllTodos m))"
  from assms obtain rest where s: "jsSort compareTodos ?el = t # rest"
    by (auto simp: getNextTodo_def split: list.splits)
  then have "t \<in> set (jsSort compareTodos ?el)" by simp
  then have "t \<in> set ?el" by (simp only: set_jsSort)
  then show "t \<in> set (getAllTodos m)" "status t = Pending" "areDependenciesMet m t" by simp_all
  fix u assume "u \<in> set (getAllTodos m)" "status u = Pending" "areDependenciesMet m u"
  then have "u \<in> set ?el" by simp
  from jsSort_head_least[OF s this] show "compareTodos t u \<le> 0" .
qed

text \<open>
  Claim C2. \<^verbatim>\<open>getNextTodo\<close> returns null exactly when no pending todo has all its
  dependencies resolving to completed todos. Otherwise it returns such a todo, and every
  other pending todo with completed dependencies has a lower priority weight, or the same
  priority and a creation timestamp that is not earlier. A pending todo with an
  incomplete dependency is therefore never returned, whatever its priority.
\<close>

theorem getNextTodo_selects:
  "(getNextTodo m = None \<longrightarrow>
      (\<forall>t\<in>set (getAllTodos m). status t = Pending \<longrightarrow>
         (\<exists>d\<in>set (dependencyIds t).
            \<forall>r. findTodo m d = Some r \<longrightarrow> status (todoAt m r) \<noteq> Completed))) \<and>
   (\<forall>t. getNextTodo m = Some t \<longrightarrow>
      t \<in> set (getAllTodos m) \<and> status t = Pending \<and>
      (\<forall>d\<in>set (dependencyIds t).
         \<exists>r. findTodo m d = Some r \<and> status (todoAt m r) = Completed) \<and>
      (\<forall>u\<in>set (getAllTodos m).
         status u = Pending \<and>
         (\<forall>d\<in>set (dependencyIds u).
            \<exists>r. findTodo m d = Some r \<and> status (todoAt m r) = Completed) \<longrightarrow>
         priorityWeight (priority u) < priorityWeight (priority t) \<or>
         (priority u = priority t \<and> createdAt t \<le> createdAt u)))"
proof (intro conjI impI allI)
  assume "getNextTodo m = None"
  then show "\<forall>t\<in>set (getAllTodos m). status t = Pending \<longrightarrow>
         (\<exists>d\<in>set (dependencyIds t).
            \<forall>r. findTodo m d = Some r \<longrightarrow> status (todoAt m r) \<noteq> Completed)"
    unfolding getNextTodo_None areDependenciesMet_iff by blast
next
  fix t assume a: "getNextTodo m = Some t"
  from getNextTodo_Some(1)[OF a] show "t \<in> set (getAllTodos m)" .
  from getNextTodo_Some(2)[OF a] show "status t = Pending" .
  from getNextTodo_Some(3)[OF a]
  show "\<forall>d\<in>set (dependencyIds t).
         \<exists>r. findTodo m d = Some r \<and> status (todoAt m r) = Completed"
    by (simp only: areDependenciesMet_iff)
  show "\<forall>u\<in>set (getAllTodos m).
         status u = Pending \<and>
         (\<forall>d\<in>set (dependencyIds u).
            \<exists>r. findTodo m d = Some r \<and> status (todoAt m r) = Completed) \<longrightarrow>
         priorityWeight (priority u) < priorityWeight (priority t) \<or>
         (priority u = priority t \<and> createdAt t \<le> createdAt u)"
  proof (intro ballI impI)
    fix u assume u: "u \<in> set (getAllTodos m)"
      and e: "status u = Pending \<and>
         (\<forall>d\<in>set (dependencyIds u).
            \<exists>r. findTodo m d = Some r \<and> status (todoAt m r) = Completed)"
    from e have "areDependenciesMet m u" unfolding areDependenciesMet_iff by blast
    from getNextTodo_Some(4)[OF a u _ this] e have "compareTodos t u \<le> 0" by simp
    then show "priorityWeight (priority u) < priorityWeight (priority t) \<or>
         (priority u = priority t \<and> createdAt t \<le> createdAt u)"
      unfolding compareTodos_le by (cases "priority u"; cases "priority t") auto
  qed
qed

text \<open>
  The specification's scenario: of three pending todos created as low, high, medium, the
  high one is selected; once it is completed the medium one, then the low one.
\<close>

theorem getNextTodo_selects_witness:
  "getNextTodo ledgerLowHighMedium = Some (mkTodo ''b'' Pending High 2 []) \<and>
   mkTodo ''b'' Pending High 2 [] \<in> set (getAllTodos ledgerLowHighMedium) \<and>
   status (mkTodo ''b'' Pending High 2 []) = Pending \<and>
   (case updateTodoStatus ledgerLowHighMedium ''b'' Completed None 4 of
      Inl e \<Rightarrow> None | Inr m1 \<Rightarrow> map_option tid (getNextTodo m1)) = Some ''c'' \<and>
   (case updateTodoStatus ledgerLowHighMedium ''b'' Completed None 4 of
      Inl e \<Rightarrow> None
    | Inr m1 \<Rightarrow>
        (case updateTodoStatus m1 ''c'' Completed None 5 of
           Inl e \<Rightarrow> None | Inr m2 \<Rightarrow> map_option tid (getNextTodo m2))) = Some ''a''"
proof -
  have e: "getNextTodo ledgerLowHighMedium = Some (mkTodo ''b'' Pending High 2 [])"
    by code_simp
  from getNextTodo_selects[of ledgerLowHighMedium] e
  have "mkTodo ''b'' Pending High 2 [] \<in> set (getAllTodos ledgerLowHighMedium) \<and>
        status (mkTodo ''b'' Pending High 2 []) = Pending"
    by blast
  moreover have "(case updateTodoStatus ledgerLowHighMedium ''b'' Completed None 4 of
      Inl e \<Rightarrow> None | Inr m1 \<Rightarrow> map_option tid (getNextTodo m1)) = Some ''c''"
    by code_simp
  moreover have "(case updateTodoStatus ledgerLowHighMedium ''b'' Completed None 4 of
      Inl e \<Rightarrow> None
    | Inr m1 \<Rightarrow>
        (case updateTodoStatus m1 ''c'' Completed None 5 of
           Inl e \<Rightarrow> None | Inr m2 \<Rightarrow> map_option tid (getNextTodo m2))) = Some ''a''"
    by code_simp
  ultimately show ?thesis using e by simp
qed

text \<open>
  Claim C10. A dependency id that no todo of the ledger carries counts as unmet: a todo
  listing such an id is never the result of \<^verbatim>\<open>getNextTodo\<close>.
\<close>

theorem unresolved_dependency_blocks:
  "d \<in> set (dependencyIds t) \<Longrightarrow> \<forall>u\<in>set (getAllTodos m). tid u \<noteq> d \<Longrightarrow>
   getNextTodo m \<noteq> Some t"
proof
  assume d: "d \<in> set (dependencyIds t)" and n: "\<forall>u\<in>set (getAllTodos m). tid u \<noteq> d"
    and s: "getNextTodo m = Some t"
  from n have "findTodo m d = None" by (simp only: findTodo_None)
  moreover from getNextTodo_Some(3)[OF s] d
  have "\<exists>r. findTodo m d = Some r \<and> status (todoAt m r) = Completed"
    unfolding areDependenciesMet_iff by blast
  ultimately show False by simp
qed

theorem unresolved_dependency_blocks_witness:
  "''ghost'' \<in> set (dependencyIds (mkTodo ''a'' Pending High 1 [''ghost''])) \<and>
   list_all (\<lambda>u. tid u \<noteq> ''ghost'') (getAllTodos ledgerGhostDependency) \<and>
   getNextTodo ledgerGhostDependency \<noteq> Some (mkTodo ''a'' Pending High 1 [''ghost'']) \<and>
   getNextTodo ledgerGhostDependency = Some (mkTodo ''b'' Pending Low 2 [])"
proof -
  have d: "''ghost'' \<in> set (dependencyIds (mkTodo ''a'' Pending High 1 [''ghost'']))"
    by (simp add: dependencyIds_def mkTodo_def)
  have n: "list_all (\<lambda>u. tid u \<noteq> ''ghost'') (getAllTodos ledgerGhostDependency)"
    by code_simp
  then have n': "\<forall>u\<in>set (getAllTodos ledgerGhostDependency). tid u \<noteq> ''ghost''"
    by (simp only: list_all_iff)
  have e: "getNextTodo ledgerGhostDependency = Some (mkTodo ''b'' Pending Low 2 [])"
    by code_simp
  from unresolved_dependency_blocks[OF d n'] d n e show ?thesis by simp
qed

subsection \<open>Status updates\<close>

lemma filter_all: "length (filter P xs) = length xs \<longleftrightarrow> (\<forall>x\<in>set xs. P x)"
  by (metis filter_id_conv length_filter_less less_irrefl)

lemma todos_updateGroupStatus [simp]: "todos (updateGroupStatus now g) = todos g"
  by (simp add: updateGroupStatus_def Let_def)

lemma updateGroupStatus_reflects: "statusReflectsMembers (updateGroupStatus now g)"
proof (cases "todos g = []")
  case True
  then show ?thesis by (simp add: statusReflectsMembers_def updateGroupStatus_def)
next
  case False
  then have ne: "length (todos g) \<noteq> 0" by simp
  have st: "gstatus (updateGroupStatus now g) =
      (if (\<forall>t\<in>set (todos g). status t = Completed) then GroupCompleted
       else if (\<exists>t\<in>set (todos g). status t = InProgress) \<or> (\<exists>t\<in>set (todos g). status t = Completed)
       then GroupInProgress else GroupPending)"
    using ne by (auto simp: updateGroupStatus_def Let_def filter_all filter_empty_conv)
  from False obtain x where "x \<in> set (todos g)" by (cases "todos g") auto
  then show ?thesis
    unfolding statusReflectsMembers_def st todos_updateGroupStatus using False by auto
qed

lemma updateTodoStatus_Inr:
  assumes "updateTodoStatus m i st a now = Inr m'"
  obtains gi ti t' where "findTodo m i = Some (gi, ti)" "status t' = st"
    "tid t' = tid (todos (groups m ! gi) ! ti)"
    "m' = m\<lparr>groups := (groups m)[gi := updateGroupStatus now
            ((groups m ! gi)\<lparr>todos := (todos (groups m ! gi))[ti := t']\<rparr>)]\<rparr>"
proof (cases "findTodo m i")
  case None
  with assms show ?thesis by (simp add: updateTodoStatus_def)
next
  case (Some r)
  obtain gi ti where r: "r = (gi, ti)" by (cases r)
  let ?t1 = "(todos (groups m ! gi) ! ti)\<lparr>status := st, updatedAt := now\<rparr>"
  let ?t2 = "case a of None \<Rightarrow> ?t1 | Some n \<Rightarrow> ?t1\<lparr>actualTokens := Some n\<rparr>"
  have "status ?t2 = st" by (cases a) simp_all
  moreover have "tid ?t2 = tid (todos (groups m ! gi) ! ti)" by (cases a) simp_all
  moreover from assms Some r
  have "m' = m\<lparr>groups := (groups m)[gi := updateGroupStatus now
            ((groups m ! gi)\<lparr>todos := (todos (groups m ! gi))[ti := ?t2]\<rparr>)]\<rparr>"
    by (simp add: updateTodoStatus_def Let_def)
  ultimately show ?thesis using that Some r by blast
qed


lemma updateTodoStatus_preserves:
  assumes "updateTodoStatus m i st a now = Inr m'" "\<forall>g\<in>set (groups m). statusReflectsMembers g"
  shows "\<forall>g\<in>set (groups m'). statusReflectsMembers g"
proof -
  from assms(1) obtain gi ti t' where
    m': "m' = m\<lparr>groups := (groups m)[gi := updateGroupStatus now
            ((groups m ! gi)\<lparr>todos := (todos (groups m ! gi))[ti := t']\<rparr>)]\<rparr>"
    by (rule updateTodoStatus_Inr)
  show ?thesis
  proof
    fix g assume "g \<in> set (groups m')"
    then have "g \<in> insert (updateGroupStatus now
            ((groups m ! gi)\<lparr>todos := (todos (groups m ! gi))[ti := t']\<rparr>)) (set (groups m))"
      unfolding m' using set_update_subset_insert by fastforce
    with assms(2) show "statusReflectsMembers g"
      by (auto simp: updateGroupStatus_reflects)
  qed
qed

lemma createTodoGroup_preserves:
  assumes "\<forall>g\<in>set (groups m). statusReflectsMembers g"
  shows "\<forall>g\<in>set (groups (snd (createTodoGroup m ttl desc est newId now))). statusReflectsMembers g"
  using assms by (auto simp: createTodoGroup_def Let_def statusReflectsMembers_def)











text \<open>
  Claim C7, as stated, fails for a group without members: all of its (zero) members are
  completed, yet \<^verbatim>\<open>createTodoGroup\<close> leaves it pending.
\<close>

theorem group_status_counterexample:
  "\<not> groupStatusInvariant
       (last (groups (snd (createTodoGroup emptyLedger ''Build'' None None ''g1'' 0))))"
  by (simp add: createTodoGroup_def emptyLedger_def groupStatusInvariant_def)

text \<open>
  Claim C7, amended. Whenever \<^verbatim>\<open>updateGroupStatus\<close> recomputes a group's status, the status
  is completed iff the group has a member and all members are completed, in progress iff
  some member is in progress or completed but not all are completed, and pending
  otherwise; so a group without members is pending, and so is a group whose members are
  all skipped or blocked. \<^verbatim>\<open>createTodoGroup\<close> and \<^verbatim>\<open>updateTodoStatus\<close> keep this rule for
  every group of the ledger, and \<^verbatim>\<open>updateTodoStatus\<close> establishes it for the group of the
  updated todo.
\<close>

theorem group_status_reflects_members:
  "statusReflectsMembers (updateGroupStatus now g) \<and>
   (\<forall>m' r. updateTodoStatus m todoId newStatus actual now = Inr m' \<longrightarrow>
      findTodo m todoId = Some r \<longrightarrow> statusReflectsMembers (groups m' ! fst r)) \<and>
   ((\<forall>g\<in>set (groups m). statusReflectsMembers g) \<longrightarrow>
      (\<forall>g\<in>set (groups (snd (createTodoGroup m ttl desc est newId now))).
         statusReflectsMembers g) \<and>
      (\<forall>m'. updateTodoStatus m todoId newStatus actual now = Inr m' \<longrightarrow>
         (\<forall>g\<in>set (groups m'). statusReflectsMembers g)))"
proof (intro conjI allI impI)
  show "statusReflectsMembers (updateGroupStatus now g)"
    by (rule updateGroupStatus_reflects)
next
  fix m' r
  assume u: "updateTodoStatus m todoId newStatus actual now = Inr m'"
    and f: "findTodo m todoId = Some r"
  from u obtain gi ti t' where f': "findTodo m todoId = Some (gi, ti)"
    and m': "m' = m\<lparr>groups := (groups m)[gi := updateGroupStatus now
            ((groups m ! gi)\<lparr>todos := (todos (groups m ! gi))[ti := t']\<rparr>)]\<rparr>"
    by (rule updateTodoStatus_Inr)
  from f f' have r: "r = (gi, ti)" by simp
  from findTodo_Some(1)[OF f'] show "statusReflectsMembers (groups m' ! fst r)"
    unfolding r m' by (simp add: updateGroupStatus_reflects)
next
  assume "\<forall>g\<in>set (groups m). statusReflectsMembers g"
  then show "\<forall>g\<in>set (groups (snd (createTodoGroup m ttl desc est newId now))).
         statusReflectsMembers g"
    by (rule createTodoGroup_preserves)
next
  fix m'
  assume "\<forall>g\<in>set (groups m). statusReflectsMembers g"
    and "updateTodoStatus m todoId newStatus actual now = Inr m'"
  then show "\<forall>g\<in>set (groups m'). statusReflectsMembers g"
    using updateTodoStatus_preserves by blast
qed

theorem group_status_reflects_members_witness:
  "gstatus (updateGroupStatus 7 (mkGroup ''g'' GroupCompleted [])) = GroupPending \<and>
   statusReflectsMembers (updateGroupStatus 7 (mkGroup ''g'' GroupCompleted [])) \<and>
   gstatus (updateGroupStatus 7 (mkGroup ''g'' GroupCompleted
     [mkTodo ''a'' Skipped Medium 1 [], mkTodo ''b'' Blocked Medium 2 []])) = GroupPending \<and>
   list_all statusReflectsMembers (groups ledgerSkippedBlocked) \<and>
   (case updateTodoStatus ledgerSkippedBlocked ''c'' Completed None 7 of
      Inl e \<Rightarrow> [] | Inr m' \<Rightarrow> map gstatus (groups m')) = [GroupPending, GroupCompleted] \<and>
   (case updateTodoStatus ledgerSkippedBlocked ''c'' Completed None 7 of
      Inl e \<Rightarrow> False | Inr m' \<Rightarrow> list_all statusReflectsMembers (groups m'))"
proof -
  have a: "gstatus (updateGroupStatus 7 (mkGroup ''g'' GroupCompleted [])) = GroupPending"
    by code_simp
  have b: "gstatus (updateGroupStatus 7 (mkGroup ''g'' GroupCompleted
     [mkTodo ''a'' Skipped Medium 1 [], mkTodo ''b'' Blocked Medium 2 []])) = GroupPending"
    by code_simp
  have inv: "list_all statusReflectsMembers (groups ledgerSkippedBlocked)"
    by (simp add: ledgerSkippedBlocked_def statusReflectsMembers_def mkGroup_def mkTodo_def)
  obtain m' where u: "updateTodoStatus ledgerSkippedBlocked ''c'' Completed None 7 = Inr m'"
    by (simp add: updateTodoStatus_def findTodo_def ledgerSkippedBlocked_def mkGroup_def
        mkTodo_def Let_def)
  have s: "(case updateTodoStatus ledgerSkippedBlocked ''c'' Completed None 7 of
      Inl e \<Rightarrow> [] | Inr m' \<Rightarrow> map gstatus (groups m')) = [GroupPending, GroupCompleted]"
    by code_simp
  from group_status_reflects_members[where now = 7 and g = "mkGroup ''g'' GroupCompleted []"
      and m = ledgerSkippedBlocked and todoId = "''c''" and newStatus = Completed
      and actual = None] inv u
  have "statusReflectsMembers (updateGroupStatus 7 (mkGroup ''g'' GroupCompleted []))"
    and "list_all statusReflectsMembers (groups m')"
    by (simp_all add: list_all_iff)
  with a b inv s u show ?thesis by simp
qed

subsection \<open>Where the hypotheses are needed\<close>

text \<open>
  \<^verbatim>\<open>addTodo\<close> does not recompute the group's status: a todo added to a completed group
  leaves the group completed with a pending member.
\<close>

lemma addTodo_leaves_status_stale:
  "(let none = \<lparr>optDescription = None, optPriority = None, optEstimatedTokens = None,
                 optDependencies = None, optTags = None, optGroupId = None\<rparr>;
        m1 = snd (createTodoGroup emptyLedger ''g'' None None ''g1'' 0);
        m2 = snd (addTodo m1 ''first'' none ''a'' ''g2'' 1)
    in case updateTodoStatus m2 ''a'' Completed None 2 of
         Inl e \<Rightarrow> None
       | Inr m3 \<Rightarrow>
           Some (map (\<lambda>g. (gstatus g, map status (todos g), statusReflectsMembers g))
                   (groups (snd (addTodo m3 ''second'' none ''b'' ''g3'' 3))))) =
   Some [(GroupCompleted, [Completed, Pending], False)]"
  by code_simp

text \<open>
  Without distinct ids the resume operation can move a terminal todo: the id of the pending
  todo it picks resolves to the first todo carrying that id. The completed todo is set in
  progress, and the pending todo is returned as it was.
\<close>

lemma continue_with_duplicate_ids:
  "map_sum id (\<lambda>(t, m). (map_option (\<lambda>t. (tid t, status t, createdAt t)) t,
                          map (\<lambda>t. (tid t, status t, createdAt t)) (getAllTodos m)))
     (continueFromLastCheckpoint
        \<lparr>groups = [mkGroup ''g'' GroupInProgress
           [mkTodo ''a'' Completed Medium 1 [], mkTodo ''a'' Pending Medium 2 []]],
         currentGroup = Some 0\<rparr> 5) =
   Inr (Some (''a'', Pending, 2), [(''a'', InProgress, 1), (''a'', Pending, 2)])"
  by code_simp
section \<open>Properties of the Execution Engine\<close>

subsection \<open>The loop, step by step\<close>

lemma processOperations_append:
  "processOperations env fg i (xs @ ys) st =
     processOperations env fg (i + length xs) ys (processOperations env fg i xs st)"
  by (induction xs arbitrary: i st) simp_all

lemma processOperations_snoc:
  "processOperations env fg 0 (xs @ [x]) st =
     processOperation env fg (length xs) x (processOperations env fg 0 xs st)"
  by (simp add: processOperations_append)

lemma autoBefore_prefix:
  assumes "i \<le> length xs"
  shows "autoBefore env (xs @ ys) i = autoBefore env xs i"
proof -
  have "(j < i \<and> approvalCallback env j ((xs @ ys) ! j) = Inr Auto) =
        (j < i \<and> approvalCallback env j (xs ! j) = Inr Auto)" for j
  proof (cases "j < i")
    case True
    with assms have "j < length xs" by simp
    then show ?thesis by (simp add: nth_append)
  next
    case False
    then show ?thesis by simp
  qed
  then show ?thesis unfolding autoBefore_def by simp
qed

lemma appliedAt_prefix:
  "i < length xs \<Longrightarrow> appliedAt env (xs @ ys) i = appliedAt env xs i"
  by (simp add: appliedAt_def autoBefore_prefix nth_append)

lemma threwAt_prefix:
  "i < length xs \<Longrightarrow> threwAt env fg (xs @ ys) i = threwAt env fg xs i"
  by (simp add: threwAt_def appliedAt_prefix autoBefore_prefix nth_append)

lemma autoBefore_Suc:
  "autoBefore env ops (Suc i) \<longleftrightarrow> autoBefore env ops i \<or> approvalCallback env i (ops ! i) = Inr Auto"
  by (auto simp: autoBefore_def less_Suc_eq)

text \<open>One step of the loop, field by field.\<close>

lemma autoMode_applyDecision [simp]:
  "autoMode (applyDecision env fg i x d st) = autoMode st"
  by (simp add: applyDecision_def recordFailure_def Let_def split: decision.splits option.splits op_type.splits)

lemma autoMode_processOperation:
  "autoMode (processOperation env fg i x st) \<longleftrightarrow>
     autoMode st \<or> approvalCallback env i x = Inr Auto"
  by (auto simp: processOperation_def recordFailure_def Let_def split: sum.splits)

lemma trace_applyDecision:
  "trace (applyDecision env fg i x d st) = trace st @ (if d = Approve then [Applied i] else [])"
  by (simp add: applyDecision_def recordFailure_def Let_def split: decision.splits option.splits op_type.splits)

lemma trace_processOperation:
  "trace (processOperation env fg i x st) =
     trace st @
     (if autoMode st then [Applied i]
      else Asked i #
        (if approvalCallback env i x = Inr Approve \<or> approvalCallback env i x = Inr Auto
         then [Applied i] else []))"
  by (auto simp: processOperation_def trace_applyDecision recordFailure_def Let_def split: sum.splits)

lemma success_applyDecision:
  "success (result (applyDecision env fg i x d st)) \<longleftrightarrow>
     success (result st) \<and> \<not> (d = Approve \<and> executeFileOperation env fg i x \<noteq> None)"
  by (auto simp: applyDecision_def recordFailure_def Let_def split: decision.splits option.splits op_type.splits)

lemma success_processOperation:
  "success (result (processOperation env fg i x st)) \<longleftrightarrow>
     success (result st) \<and>
     \<not> (if autoMode st then executeFileOperation env fg i x \<noteq> None
        else isl (approvalCallback env i x) \<or>
             ((approvalCallback env i x = Inr Approve \<or> approvalCallback env i x = Inr Auto) \<and>
              executeFileOperation env fg i x \<noteq> None))"
  by (auto simp: processOperation_def success_applyDecision recordFailure_def Let_def split: sum.splits)

lemma run_closed_form:
  assumes "autoMode st0 = False" "trace st0 = []"
  shows "autoMode (processOperations env fg 0 ops st0) = autoBefore env ops (length ops) \<and>
    (\<forall>j. Asked j \<in> set (trace (processOperations env fg 0 ops st0)) \<longleftrightarrow>
          j < length ops \<and> \<not> autoBefore env ops j) \<and>
    (\<forall>j. Applied j \<in> set (trace (processOperations env fg 0 ops st0)) \<longleftrightarrow>
          j < length ops \<and> appliedAt env ops j) \<and>
    (success (result (processOperations env fg 0 ops st0)) \<longleftrightarrow>
       success (result st0) \<and> (\<forall>j<length ops. \<not> threwAt env fg ops j))"
proof (induction ops rule: rev_induct)
  case Nil
  show ?case using assms by (simp add: autoBefore_def)
next
  case (snoc x xs)
  let ?st = "processOperations env fg 0 xs st0"
  let ?n = "length xs"
  from snoc have am: "autoMode ?st = autoBefore env xs ?n"
    and asked: "\<And>j. Asked j \<in> set (trace ?st) \<longleftrightarrow> j < ?n \<and> \<not> autoBefore env xs j"
    and applied: "\<And>j. Applied j \<in> set (trace ?st) \<longleftrightarrow> j < ?n \<and> appliedAt env xs j"
    and succ: "success (result ?st) \<longleftrightarrow> success (result st0) \<and> (\<forall>j<?n. \<not> threwAt env fg xs j)"
    by blast+
  have ab: "autoBefore env (xs @ [x]) ?n = autoBefore env xs ?n"
    by (simp add: autoBefore_prefix)
  have cb: "approvalCallback env ?n ((xs @ [x]) ! ?n) = approvalCallback env ?n x" by simp
  have 1: "autoMode (processOperations env fg 0 (xs @ [x]) st0) =
      autoBefore env (xs @ [x]) (length (xs @ [x]))"
    by (simp add: processOperations_snoc autoMode_processOperation am autoBefore_Suc ab)
  have 2: "Asked j \<in> set (trace (processOperations env fg 0 (xs @ [x]) st0)) \<longleftrightarrow>
      j < length (xs @ [x]) \<and> \<not> autoBefore env (xs @ [x]) j" for j
  proof (cases "j < ?n")
    case True
    then show ?thesis
      by (auto simp: processOperations_snoc trace_processOperation asked autoBefore_prefix)
  next
    case False
    then show ?thesis
      by (auto simp: processOperations_snoc trace_processOperation asked am ab less_Suc_eq)
  qed
  have 3: "Applied j \<in> set (trace (processOperations env fg 0 (xs @ [x]) st0)) \<longleftrightarrow>
      j < length (xs @ [x]) \<and> appliedAt env (xs @ [x]) j" for j
  proof (cases "j < ?n")
    case True
    then show ?thesis
      by (auto simp: processOperations_snoc trace_processOperation applied appliedAt_prefix)
  next
    case False
    then show ?thesis
      by (auto simp: processOperations_snoc trace_processOperation applied am ab cb less_Suc_eq
          appliedAt_def)
  qed
  have t: "(\<forall>j<length (xs @ [x]). \<not> threwAt env fg (xs @ [x]) j) \<longleftrightarrow>
      (\<forall>j<?n. \<not> threwAt env fg xs j) \<and> \<not> threwAt env fg (xs @ [x]) ?n"
    by (auto simp: less_Suc_eq threwAt_prefix)
  have 4: "success (result (processOperations env fg 0 (xs @ [x]) st0)) \<longleftrightarrow>
       success (result st0) \<and> (\<forall>j<length (xs @ [x]). \<not> threwAt env fg (xs @ [x]) j)"
    unfolding t
    by (auto simp: processOperations_snoc success_processOperation succ am threwAt_def
        appliedAt_def ab cb)
  from 1 2 3 4 show ?case by blast
qed

lemma success_setupBranch: "success (setupBranch env plan initialResult) = True"
  by (simp add: setupBranch_def initialResult_def split: sum.splits option.splits)

lemma lists_setupBranch:
  "filesCreated (setupBranch env plan initialResult) = []"
  "filesModified (setupBranch env plan initialResult) = []"
  "filesSkipped (setupBranch env plan initialResult) = []"
  by (simp_all add: setupBranch_def initialResult_def split: sum.splits option.splits)

lemma success_autoCommitFiles: "success (autoCommitFiles env fg plan r) = success r"
  by (simp add: autoCommitFiles_def Let_def split: option.splits)

lemma lists_autoCommitFiles:
  "filesCreated (autoCommitFiles env fg plan r) = filesCreated r"
  "filesModified (autoCommitFiles env fg plan r) = filesModified r"
  "filesSkipped (autoCommitFiles env fg plan r) = filesSkipped r"
  by (simp_all add: autoCommitFiles_def Let_def split: option.splits)

lemma executeGenerationPlan_alt:
  "executeGenerationPlan env fg plan =
     (autoCommitFiles env fg plan
        (result (processOperations env fg 0 (files plan) (initialState env plan))),
      trace (processOperations env fg 0 (files plan) (initialState env plan)))"
  by (simp add: executeGenerationPlan_def initialState_def Let_def)

lemma run_facts:
  "Asked j \<in> set (snd (executeGenerationPlan env fg plan)) \<longleftrightarrow>
     j < length (files plan) \<and> \<not> autoBefore env (files plan) j"
  "Applied j \<in> set (snd (executeGenerationPlan env fg plan)) \<longleftrightarrow>
     j < length (files plan) \<and> appliedAt env (files plan) j"
  "success (fst (executeGenerationPlan env fg plan)) \<longleftrightarrow>
     (\<forall>j<length (files plan). \<not> threwAt env fg (files plan) j)"
proof -
  have i: "autoMode (initialState env plan) = False" "trace (initialState env plan) = []"
    by (simp_all add: initialState_def)
  note cf = run_closed_form[OF i, of env fg "files plan"]
  from cf show "Asked j \<in> set (snd (executeGenerationPlan env fg plan)) \<longleftrightarrow>
     j < length (files plan) \<and> \<not> autoBefore env (files plan) j"
    unfolding executeGenerationPlan_alt by simp
  from cf show "Applied j \<in> set (snd (executeGenerationPlan env fg plan)) \<longleftrightarrow>
     j < length (files plan) \<and> appliedAt env (files plan) j"
    unfolding executeGenerationPlan_alt by simp
  from cf have "success (result (processOperations env fg 0 (files plan) (initialState env plan))) \<longleftrightarrow>
     (\<forall>j<length (files plan). \<not> threwAt env fg (files plan) j)"
    by (simp add: initialState_def success_setupBranch)
  then show "success (fst (executeGenerationPlan env fg plan)) \<longleftrightarrow>
     (\<forall>j<length (files plan). \<not> threwAt env fg (files plan) j)"
    unfolding executeGenerationPlan_alt by (simp add: success_autoCommitFiles)
qed


subsection \<open>Auto-approve against explicit approval\<close>

text \<open>Replacing the decision callback changes no other collaborator.\<close>

lemma executeFileOperation_callback [simp]:
  "executeFileOperation (env\<lparr>approvalCallback := cb\<rparr>) fg i x = executeFileOperation env fg i x"
  by (simp add: executeFileOperation_def Let_def split: option.splits op_type.splits)

lemma setupBranch_callback [simp]:
  "setupBranch (env\<lparr>approvalCallback := cb\<rparr>) plan r = setupBranch env plan r"
  by (simp add: setupBranch_def split: sum.splits option.splits)

lemma autoCommitFiles_callback [simp]:
  "autoCommitFiles (env\<lparr>approvalCallback := cb\<rparr>) fg plan r = autoCommitFiles env fg plan r"
  by (auto simp: autoCommitFiles_def Let_def split: option.splits)

lemma applyDecision_callback [simp]:
  "applyDecision (env\<lparr>approvalCallback := cb\<rparr>) fg i x d st = applyDecision env fg i x d st"
  by (simp add: applyDecision_def Let_def split: decision.splits option.splits op_type.splits)

lemma result_applyDecision_cong:
  "result st = result st' \<Longrightarrow>
   result (applyDecision env fg i x d st) = result (applyDecision env fg i x d st')"
  by (simp add: applyDecision_def recordFailure_def Let_def
      split: decision.splits option.splits op_type.splits)

lemma processOperation_same_answer:
  assumes "cb i x = approvalCallback env i x"
  shows "processOperation (env\<lparr>approvalCallback := cb\<rparr>) fg i x st = processOperation env fg i x st"
  using assms by (simp add: processOperation_def Let_def split: sum.splits)

lemma processOperations_same_answers:
  assumes "\<And>k. k < i + length xs \<Longrightarrow> cb k = approvalCallback env k"
  shows "processOperations (env\<lparr>approvalCallback := cb\<rparr>) fg i xs st =
         processOperations env fg i xs st"
  using assms
proof (induction xs arbitrary: i st)
  case Nil
  show ?case by simp
next
  case (Cons x xs)
  have "cb i x = approvalCallback env i x" using Cons.prems[of i] by simp
  then have s: "processOperation (env\<lparr>approvalCallback := cb\<rparr>) fg i x st =
      processOperation env fg i x st"
    by (rule processOperation_same_answer)
  have "processOperations (env\<lparr>approvalCallback := cb\<rparr>) fg (Suc i) xs
          (processOperation env fg i x st) =
        processOperations env fg (Suc i) xs (processOperation env fg i x st)"
    by (rule Cons.IH) (use Cons.prems in simp)
  with s show ?case by simp
qed

lemma approved_step_simulation:
  assumes r: "result st = result st'"
    and a: "autoMode st \<or> approvalCallback env k x = Inr Auto"
    and c: "cb k x = Inr Approve"
  shows "result (processOperation env fg k x st) =
           result (processOperation (env\<lparr>approvalCallback := cb\<rparr>) fg k x st') \<and>
         autoMode (processOperation env fg k x st)"
proof -
  have l: "result (processOperation env fg k x st) =
      result (applyDecision env fg k x Approve st)"
  proof (cases "autoMode st")
    case True
    then show ?thesis by (simp add: processOperation_def)
  next
    case False
    with a have "approvalCallback env k x = Inr Auto" by simp
    with False have "processOperation env fg k x st =
        applyDecision env fg k x Approve (st\<lparr>trace := trace st @ [Asked k], autoMode := True\<rparr>)"
      by (simp add: processOperation_def Let_def)
    then have "result (processOperation env fg k x st) =
        result (applyDecision env fg k x Approve
                  (st\<lparr>trace := trace st @ [Asked k], autoMode := True\<rparr>))"
      by simp
    also have "\<dots> = result (applyDecision env fg k x Approve st)"
      by (rule result_applyDecision_cong) simp
    finally show ?thesis .
  qed
  have m: "result (processOperation (env\<lparr>approvalCallback := cb\<rparr>) fg k x st') =
      result (applyDecision env fg k x Approve st')"
  proof (cases "autoMode st'")
    case True
    then show ?thesis by (simp add: processOperation_def)
  next
    case False
    with c have "processOperation (env\<lparr>approvalCallback := cb\<rparr>) fg k x st' =
        applyDecision env fg k x Approve (st'\<lparr>trace := trace st' @ [Asked k]\<rparr>)"
      by (simp add: processOperation_def Let_def)
    then have "result (processOperation (env\<lparr>approvalCallback := cb\<rparr>) fg k x st') =
        result (applyDecision env fg k x Approve (st'\<lparr>trace := trace st' @ [Asked k]\<rparr>))"
      by simp
    also have "\<dots> = result (applyDecision env fg k x Approve st')"
      by (rule result_applyDecision_cong) simp
    finally show ?thesis .
  qed
  from a have "autoMode (processOperation env fg k x st)"
    by (simp add: autoMode_processOperation)
  with l m result_applyDecision_cong[OF r] show ?thesis by simp
qed

lemma approved_run_simulation:
  assumes "result st = result st'"
    and "autoMode st \<or> (xs \<noteq> [] \<and> approvalCallback env k (hd xs) = Inr Auto)"
    and "\<And>n x. k \<le> n \<Longrightarrow> cb n x = Inr Approve"
  shows "result (processOperations env fg k xs st) =
         result (processOperations (env\<lparr>approvalCallback := cb\<rparr>) fg k xs st')"
  using assms
proof (induction xs arbitrary: k st st')
  case Nil
  then show ?case by simp
next
  case (Cons x xs)
  from Cons.prems(2) have a: "autoMode st \<or> approvalCallback env k x = Inr Auto" by simp
  have c: "cb k x = Inr Approve" by (rule Cons.prems(3)) simp
  from approved_step_simulation[where cb = cb and fg = fg, OF Cons.prems(1) a c]
  have s: "result (processOperation env fg k x st) =
           result (processOperation (env\<lparr>approvalCallback := cb\<rparr>) fg k x st')"
    and m: "autoMode (processOperation env fg k x st)"
    by simp_all
  have "result (processOperations env fg (Suc k) xs (processOperation env fg k x st)) =
        result (processOperations (env\<lparr>approvalCallback := cb\<rparr>) fg (Suc k) xs
                 (processOperation (env\<lparr>approvalCallback := cb\<rparr>) fg k x st'))"
    by (rule Cons.IH[OF s]) (use m Cons.prems(3) in simp_all)
  then show ?case by simp
qed

lemma auto_as_if_approved:
  assumes i: "i < length (files plan)"
    and a: "approvalCallback env i (files plan ! i) = Inr Auto"
  shows "fst (executeGenerationPlan env fg plan) =
         fst (executeGenerationPlan
                (env\<lparr>approvalCallback :=
                       \<lambda>k x. if i \<le> k then Inr Approve else approvalCallback env k x\<rparr>) fg plan)"
proof -
  let ?cb = "\<lambda>k x. if i \<le> k then Inr Approve else approvalCallback env k x"
  let ?env = "env\<lparr>approvalCallback := ?cb\<rparr>"
  let ?pre = "take i (files plan)" and ?post = "drop i (files plan)"
  have split: "files plan = ?pre @ ?post" by simp
  have len: "length ?pre = i" using i by simp
  have st0: "initialState ?env plan = initialState env plan"
    by (simp add: initialState_def)
  have pre: "processOperations ?env fg 0 ?pre (initialState env plan) =
             processOperations env fg 0 ?pre (initialState env plan)"
    by (rule processOperations_same_answers) (simp add: len)
  have hd: "?post \<noteq> [] \<and> approvalCallback env i (hd ?post) = Inr Auto"
    using i a by (simp add: hd_drop_conv_nth)
  have post: "result (processOperations env fg i ?post
                 (processOperations env fg 0 ?pre (initialState env plan))) =
              result (processOperations ?env fg i ?post
                 (processOperations env fg 0 ?pre (initialState env plan)))"
    by (rule approved_run_simulation) (use hd in simp_all)
  have "result (processOperations env fg 0 (?pre @ ?post) (initialState env plan)) =
        result (processOperations ?env fg 0 (?pre @ ?post) (initialState ?env plan))"
    unfolding processOperations_append st0 len using post pre by simp
  then have "result (processOperations env fg 0 (files plan) (initialState env plan)) =
        result (processOperations ?env fg 0 (files plan) (initialState ?env plan))"
    by simp
  then show ?thesis
    unfolding executeGenerationPlan_alt by (simp add: files_def)
qed

subsection \<open>Failures\<close>

text \<open>Error entries are only ever appended.\<close>

lemma errors_applyDecision_mono:
  "set (errors (result st)) \<subseteq> set (errors (result (applyDecision env fg i x d st)))"
  by (auto simp: applyDecision_def recordFailure_def Let_def
      split: decision.splits option.splits op_type.splits)

lemma errors_processOperation_mono:
  "set (errors (result st)) \<subseteq> set (errors (result (processOperation env fg i x st)))"
proof (cases "autoMode st")
  case True
  then show ?thesis by (simp add: processOperation_def errors_applyDecision_mono)
next
  case False
  let ?st1 = "st\<lparr>trace := trace st @ [Asked i]\<rparr>"
  have e: "errors (result ?st1) = errors (result st)" by simp
  show ?thesis
  proof (cases "approvalCallback env i x")
    case (Inl err)
    with False show ?thesis
      by (auto simp: processOperation_def recordFailure_def Let_def)
  next
    case (Inr d)
    show ?thesis
    proof (cases "d = Auto")
      case True
      with False Inr have "processOperation env fg i x st =
          applyDecision env fg i x Approve (?st1\<lparr>autoMode := True\<rparr>)"
        by (simp add: processOperation_def Let_def)
      moreover have "set (errors (result (?st1\<lparr>autoMode := True\<rparr>))) \<subseteq>
          set (errors (result (applyDecision env fg i x Approve (?st1\<lparr>autoMode := True\<rparr>))))"
        by (rule errors_applyDecision_mono)
      ultimately show ?thesis by simp
    next
      case d: False
      with False Inr have "processOperation env fg i x st = applyDecision env fg i x d ?st1"
        by (simp add: processOperation_def Let_def)
      moreover have "set (errors (result ?st1)) \<subseteq>
          set (errors (result (applyDecision env fg i x d ?st1)))"
        by (rule errors_applyDecision_mono)
      ultimately show ?thesis by simp
    qed
  qed
qed

lemma errors_processOperations_mono:
  "set (errors (result st)) \<subseteq> set (errors (result (processOperations env fg i xs st)))"
proof (induction xs arbitrary: i st)
  case Nil
  show ?case by simp
next
  case (Cons x xs)
  from errors_processOperation_mono[of st env fg i x] Cons.IH[of "processOperation env fg i x st" "Suc i"]
  show ?case by auto
qed

lemma errors_autoCommitFiles_mono:
  "set (errors r) \<subseteq> set (errors (autoCommitFiles env fg plan r))"
  by (auto simp: autoCommitFiles_def Let_def split: option.splits)

lemma result_applyDecision_Approve:
  "result (applyDecision env fg i x Approve st) = approvedOutcome env fg i x (result st)"
  by (simp add: applyDecision_def approvedOutcome_def recordFailure_def Let_def
      split: option.splits op_type.splits)

lemma approved_step:
  assumes "autoMode st \<or> approvalCallback env i x = Inr Approve \<or>
           approvalCallback env i x = Inr Auto"
  shows "result (processOperation env fg i x st) = approvedOutcome env fg i x (result st)"
proof (cases "autoMode st")
  case True
  then show ?thesis by (simp add: processOperation_def result_applyDecision_Approve)
next
  case False
  with assms consider "approvalCallback env i x = Inr Approve" | "approvalCallback env i x = Inr Auto"
    by blast
  then show ?thesis
  proof cases
    case 1
    with False show ?thesis
      by (simp add: processOperation_def Let_def result_applyDecision_Approve)
  next
    case 2
    with False show ?thesis
      by (simp add: processOperation_def Let_def result_applyDecision_Approve)
  qed
qed

lemma failure_recorded:
  assumes "Applied i \<in> set (snd (executeGenerationPlan env fg plan))"
    and "executeFileOperation env fg i (files plan ! i) = Some e"
  shows "''Failed to process '' @ path (files plan ! i) @ '': '' @ e
           \<in> set (errors (fst (executeGenerationPlan env fg plan)))"
proof -
  let ?ops = "files plan"
  let ?st0 = "initialState env plan"
  from assms(1) have i: "i < length ?ops" and ap: "appliedAt env ?ops i"
    by (simp_all add: run_facts)
  let ?pre = "take i ?ops" and ?x = "?ops ! i" and ?post = "drop (Suc i) ?ops"
  have split: "?ops = ?pre @ ?x # ?post" using i by (simp add: id_take_nth_drop)
  have len: "length ?pre = i" using i by simp
  let ?sti = "processOperations env fg 0 ?pre ?st0"
  have st0: "autoMode ?st0 = False" "trace ?st0 = []" by (simp_all add: initialState_def)
  from run_closed_form[OF st0, of env fg ?pre]
  have "autoMode ?sti = autoBefore env ?pre (length ?pre)" by blast
  then have am: "autoMode ?sti = autoBefore env ?pre i" by (simp only: len)
  have "autoBefore env ?pre i = autoBefore env (?pre @ ?x # ?post) i"
    by (rule autoBefore_prefix[symmetric]) (use i in simp)
  with split have am': "autoMode ?sti = autoBefore env ?ops i" using am by simp
  from ap am' have "autoMode ?sti \<or> approvalCallback env i ?x = Inr Approve \<or>
      approvalCallback env i ?x = Inr Auto"
    by (simp add: appliedAt_def)
  from approved_step[OF this, of fg] assms(2)
  have "''Failed to process '' @ path ?x @ '': '' @ e
      \<in> set (errors (result (processOperation env fg i ?x ?sti)))"
    by (simp add: approvedOutcome_def)
  with errors_processOperations_mono[of "processOperation env fg i ?x ?sti" env fg "Suc i" ?post]
  have "''Failed to process '' @ path ?x @ '': '' @ e
      \<in> set (errors (result (processOperations env fg (Suc i) ?post
            (processOperation env fg i ?x ?sti))))"
    by blast
  moreover have "processOperations env fg 0 ?ops ?st0 =
      processOperations env fg (Suc i) ?post (processOperation env fg i ?x ?sti)"
    by (subst split) (use i in \<open>simp add: processOperations_append min_absorb2\<close>)
  ultimately have "''Failed to process '' @ path ?x @ '': '' @ e
      \<in> set (errors (result (processOperations env fg 0 ?ops ?st0)))"
    by simp
  with errors_autoCommitFiles_mono[of "result (processOperations env fg 0 ?ops ?st0)" env fg plan]
  show ?thesis
    unfolding executeGenerationPlan_alt fst_conv by (rule subsetD)
qed

text \<open>Entries about version control do not start like the entries of the loop.\<close>

lemma operationErrors_setupBranch:
  "filter (\<lambda>m. startsWith m ''Failed to process '') (errors (setupBranch env plan initialResult)) = []"
  by (simp add: setupBranch_def initialResult_def startsWith_def split: sum.splits option.splits)

lemma operationErrors_autoCommitFiles:
  "filter (\<lambda>m. startsWith m ''Failed to process '') (errors (autoCommitFiles env fg plan r)) =
   filter (\<lambda>m. startsWith m ''Failed to process '') (errors r)"
  by (simp add: autoCommitFiles_def Let_def startsWith_def split: option.splits)

lemma operationError_failure:
  "startsWith (''Failed to process '' @ rest) ''Failed to process ''"
  by (simp add: startsWith_def)

lemma approvedOutcome_fields:
  "executeFileOperation env fg i x = None \<Longrightarrow>
     success (approvedOutcome env fg i x r) = success r \<and>
     errors (approvedOutcome env fg i x r) = errors r \<and>
     filesSkipped (approvedOutcome env fg i x r) = filesSkipped r \<and>
     filesCreated (approvedOutcome env fg i x r) =
       filesCreated r @ map path (filter (\<lambda>x. opType x = Create) [x]) \<and>
     filesModified (approvedOutcome env fg i x r) =
       filesModified r @ map path (filter (\<lambda>x. opType x = Modify) [x])"
  "executeFileOperation env fg i x = Some e \<Longrightarrow>
     success (approvedOutcome env fg i x r) = False \<and>
     errors (approvedOutcome env fg i x r) =
       errors r @ [''Failed to process '' @ path x @ '': '' @ e] \<and>
     filesSkipped (approvedOutcome env fg i x r) = filesSkipped r \<and>
     filesCreated (approvedOutcome env fg i x r) = filesCreated r \<and>
     filesModified (approvedOutcome env fg i x r) = filesModified r"
  by (cases "opType x"; simp add: approvedOutcome_def)+

lemma three_approved_second_fails:
  assumes f: "files plan = [o1, o2, o3]"
    and a0: "approvalCallback env 0 o1 = Inr Approve \<or> approvalCallback env 0 o1 = Inr Auto"
    and a1: "approvalCallback env 1 o2 = Inr Approve \<or> approvalCallback env 1 o2 = Inr Auto"
    and a2: "approvalCallback env 2 o3 = Inr Approve \<or> approvalCallback env 2 o3 = Inr Auto"
    and e0: "executeFileOperation env fg 0 o1 = None"
    and e1: "executeFileOperation env fg 1 o2 = Some err"
    and e2: "executeFileOperation env fg 2 o3 = None"
  shows "success (fst (executeGenerationPlan env fg plan)) = False"
    "filesCreated (fst (executeGenerationPlan env fg plan)) =
       map path (filter (\<lambda>x. opType x = Create) [o1, o3])"
    "filesModified (fst (executeGenerationPlan env fg plan)) =
       map path (filter (\<lambda>x. opType x = Modify) [o1, o3])"
    "filesSkipped (fst (executeGenerationPlan env fg plan)) = []"
    "filter (\<lambda>m. startsWith m ''Failed to process '')
       (errors (fst (executeGenerationPlan env fg plan))) =
     [''Failed to process '' @ path o2 @ '': '' @ err]"
proof -
  let ?r0 = "setupBranch env plan initialResult"
  let ?st0 = "initialState env plan"
  let ?s1 = "processOperation env fg 0 o1 ?st0"
  let ?s2 = "processOperation env fg (Suc 0) o2 ?s1"
  let ?s3 = "processOperation env fg (Suc (Suc 0)) o3 ?s2"
  have r0: "result ?st0 = ?r0" by (simp add: initialState_def)
  from a1 have a1': "approvalCallback env (Suc 0) o2 = Inr Approve \<or>
      approvalCallback env (Suc 0) o2 = Inr Auto" by simp
  from a2 have a2': "approvalCallback env (Suc (Suc 0)) o3 = Inr Approve \<or>
      approvalCallback env (Suc (Suc 0)) o3 = Inr Auto" by (simp add: numeral_2_eq_2)
  from e1 have e1': "executeFileOperation env fg (Suc 0) o2 = Some err" by simp
  from e2 have e2': "executeFileOperation env fg (Suc (Suc 0)) o3 = None"
    by (simp add: numeral_2_eq_2)
  have r1: "result ?s1 = approvedOutcome env fg 0 o1 ?r0"
    using approved_step[of ?st0 env 0 o1 fg] a0 r0 by auto
  have r2: "result ?s2 = approvedOutcome env fg (Suc 0) o2 (result ?s1)"
    using approved_step[of ?s1 env "Suc 0" o2 fg] a1' by auto
  have r3: "result ?s3 = approvedOutcome env fg (Suc (Suc 0)) o3 (result ?s2)"
    using approved_step[of ?s2 env "Suc (Suc 0)" o3 fg] a2' by auto
  have run: "processOperations env fg 0 (files plan) ?st0 = ?s3"
    by (simp add: f)
  note o1 = approvedOutcome_fields(1)[OF e0] and o2 = approvedOutcome_fields(2)[OF e1']
    and o3 = approvedOutcome_fields(1)[OF e2']
  have ex: "fst (executeGenerationPlan env fg plan) = autoCommitFiles env fg plan (result ?s3)"
    unfolding executeGenerationPlan_alt run by simp
  show "success (fst (executeGenerationPlan env fg plan)) = False"
    unfolding ex success_autoCommitFiles r3 by (simp add: o3 r2 o2)
  show "filesCreated (fst (executeGenerationPlan env fg plan)) =
       map path (filter (\<lambda>x. opType x = Create) [o1, o3])"
    unfolding ex lists_autoCommitFiles r3
    by (simp add: o3 r2 o2 r1 o1 lists_setupBranch)
  show "filesModified (fst (executeGenerationPlan env fg plan)) =
       map path (filter (\<lambda>x. opType x = Modify) [o1, o3])"
    unfolding ex lists_autoCommitFiles r3
    by (simp add: o3 r2 o2 r1 o1 lists_setupBranch)
  show "filesSkipped (fst (executeGenerationPlan env fg plan)) = []"
    unfolding ex lists_autoCommitFiles r3
    by (simp add: o3 r2 o2 r1 o1 lists_setupBranch)
  have "errors (result ?s3) = errors ?r0 @ [''Failed to process '' @ path o2 @ '': '' @ err]"
    unfolding r3 by (simp add: o3 r2 o2 r1 o1)
  then show "filter (\<lambda>m. startsWith m ''Failed to process '')
       (errors (fst (executeGenerationPlan env fg plan))) =
     [''Failed to process '' @ path o2 @ '': '' @ err]"
    unfolding ex operationErrors_autoCommitFiles
    by (simp add: operationErrors_setupBranch operationError_failure del: append.simps)
qed

subsection \<open>The claims about plan execution\<close>

text \<open>
  Claim C3. When the decision callback answers \<^verbatim>\<open>auto\<close> for the operation at position
  \<open>i\<close>, then for every later operation of the plan the callback is not awaited and
  \<^verbatim>\<open>executeFileOperation\<close> is called; and the result of the run is the result of the run
  in which the callback answers \<^verbatim>\<open>approve\<close> from position \<open>i\<close> on.
\<close>

theorem auto_approve_is_monotonic:
  assumes "i < j" and "j < length (files plan)"
    and "approvalCallback env i (files plan ! i) = Inr Auto"
  shows "Asked j \<notin> set (snd (executeGenerationPlan env fg plan)) \<and>
     Applied j \<in> set (snd (executeGenerationPlan env fg plan)) \<and>
     fst (executeGenerationPlan env fg plan) =
     fst (executeGenerationPlan
            (env\<lparr>approvalCallback :=
                   \<lambda>k x. if i \<le> k then Inr Approve else approvalCallback env k x\<rparr>) fg plan)"
proof -
  from assms(1,3) have "autoBefore env (files plan) j" unfolding autoBefore_def by blast
  with assms(2) have "Asked j \<notin> set (snd (executeGenerationPlan env fg plan)) \<and>
     Applied j \<in> set (snd (executeGenerationPlan env fg plan))"
    unfolding run_facts appliedAt_def by simp
  moreover from assms(1,2) have "i < length (files plan)" by simp
  from auto_as_if_approved[OF this assms(3)]
  have "fst (executeGenerationPlan env fg plan) =
     fst (executeGenerationPlan
            (env\<lparr>approvalCallback :=
                   \<lambda>k x. if i \<le> k then Inr Approve else approvalCallback env k x\<rparr>) fg plan)" .
  ultimately show ?thesis by simp
qed

theorem auto_approve_is_monotonic_witness:
  "(1::nat) < 2 \<and> 2 < length (files planOfThree) \<and>
   approvalCallback envAutoAtSecond 1 (files planOfThree ! 1) = Inr Auto \<and>
   snd (executeGenerationPlan envAutoAtSecond appGenerator planOfThree) =
     [Asked 0, Applied 0, Asked 1, Applied 1, Applied 2] \<and>
   Asked 2 \<notin> set (snd (executeGenerationPlan envAutoAtSecond appGenerator planOfThree)) \<and>
   Applied 2 \<in> set (snd (executeGenerationPlan envAutoAtSecond appGenerator planOfThree)) \<and>
   filesCreated (fst (executeGenerationPlan envAutoAtSecond appGenerator planOfThree)) =
     [''a.ts'', ''c.ts'']"
proof -
  have l: "2 < length (files planOfThree)" by (simp add: planOfThree_def)
  have a: "approvalCallback envAutoAtSecond 1 (files planOfThree ! 1) = Inr Auto"
    by (simp add: envAutoAtSecond_def quietEnv_def)
  have t: "snd (executeGenerationPlan envAutoAtSecond appGenerator planOfThree) =
     [Asked 0, Applied 0, Asked 1, Applied 1, Applied 2]"
    by code_simp
  have c: "filesCreated (fst (executeGenerationPlan envAutoAtSecond appGenerator planOfThree)) =
     [''a.ts'', ''c.ts'']"
    by code_simp
  from auto_approve_is_monotonic[of 1 2 planOfThree envAutoAtSecond appGenerator, OF _ l a]
  have "Asked 2 \<notin> set (snd (executeGenerationPlan envAutoAtSecond appGenerator planOfThree)) \<and>
     Applied 2 \<in> set (snd (executeGenerationPlan envAutoAtSecond appGenerator planOfThree))"
    by simp
  with l a t c show ?thesis by simp
qed

text \<open>
  Claim C4. If \<^verbatim>\<open>executeFileOperation\<close> is called for an operation and throws, the run
  ends with success = false, the error list holds the entry naming that operation's path,
  and every operation of the plan is still processed (asked about, or applied under
  auto-approve). In particular, for a plan of three approved operations of which only the
  second fails to apply, the created and modified lists hold exactly the first and the
  third operation (each on the list of its type), nothing is skipped, and the error list
  has exactly one entry of the loop, the one for the second operation.
\<close>

theorem continue_after_apply_failure:
  "(\<forall>i e. Applied i \<in> set (snd (executeGenerationPlan env fg plan)) \<longrightarrow>
      executeFileOperation env fg i (files plan ! i) = Some e \<longrightarrow>
      success (fst (executeGenerationPlan env fg plan)) = False \<and>
      ''Failed to process '' @ path (files plan ! i) @ '': '' @ e
        \<in> set (errors (fst (executeGenerationPlan env fg plan))) \<and>
      (\<forall>j<length (files plan).
         Asked j \<in> set (snd (executeGenerationPlan env fg plan)) \<or>
         Applied j \<in> set (snd (executeGenerationPlan env fg plan)))) \<and>
   (files plan = [o1, o2, o3] \<longrightarrow>
    (approvalCallback env 0 o1 = Inr Approve \<or> approvalCallback env 0 o1 = Inr Auto) \<longrightarrow>
    (approvalCallback env 1 o2 = Inr Approve \<or> approvalCallback env 1 o2 = Inr Auto) \<longrightarrow>
    (approvalCallback env 2 o3 = Inr Approve \<or> approvalCallback env 2 o3 = Inr Auto) \<longrightarrow>
    executeFileOperation env fg 0 o1 = None \<longrightarrow>
    executeFileOperation env fg 1 o2 = Some err \<longrightarrow>
    executeFileOperation env fg 2 o3 = None \<longrightarrow>
      success (fst (executeGenerationPlan env fg plan)) = False \<and>
      filesCreated (fst (executeGenerationPlan env fg plan)) =
        map path (filter (\<lambda>x. opType x = Create) [o1, o3]) \<and>
      filesModified (fst (executeGenerationPlan env fg plan)) =
        map path (filter (\<lambda>x. opType x = Modify) [o1, o3]) \<and>
      filesSkipped (fst (executeGenerationPlan env fg plan)) = [] \<and>
      filter (\<lambda>m. startsWith m ''Failed to process '')
        (errors (fst (executeGenerationPlan env fg plan))) =
        [''Failed to process '' @ path o2 @ '': '' @ err])"
proof (rule conjI)
  show "\<forall>i e. Applied i \<in> set (snd (executeGenerationPlan env fg plan)) \<longrightarrow>
      executeFileOperation env fg i (files plan ! i) = Some e \<longrightarrow>
      success (fst (executeGenerationPlan env fg plan)) = False \<and>
      ''Failed to process '' @ path (files plan ! i) @ '': '' @ e
        \<in> set (errors (fst (executeGenerationPlan env fg plan))) \<and>
      (\<forall>j<length (files plan).
         Asked j \<in> set (snd (executeGenerationPlan env fg plan)) \<or>
         Applied j \<in> set (snd (executeGenerationPlan env fg plan)))"
  proof (intro allI impI)
    fix i e
    assume ap: "Applied i \<in> set (snd (executeGenerationPlan env fg plan))"
      and ex: "executeFileOperation env fg i (files plan ! i) = Some e"
    from ap have i: "i < length (files plan)" and "appliedAt env (files plan) i"
      by (simp_all add: run_facts)
    with ex have "threwAt env fg (files plan) i" by (simp add: threwAt_def)
    with i have 1: "success (fst (executeGenerationPlan env fg plan)) = False"
      by (auto simp: run_facts)
    note 2 = failure_recorded[OF ap ex]
    have 3: "\<forall>j<length (files plan).
         Asked j \<in> set (snd (executeGenerationPlan env fg plan)) \<or>
         Applied j \<in> set (snd (executeGenerationPlan env fg plan))"
      by (auto simp: run_facts appliedAt_def)
    from 1 2 3 show "success (fst (executeGenerationPlan env fg plan)) = False \<and>
      ''Failed to process '' @ path (files plan ! i) @ '': '' @ e
        \<in> set (errors (fst (executeGenerationPlan env fg plan))) \<and>
      (\<forall>j<length (files plan).
         Asked j \<in> set (snd (executeGenerationPlan env fg plan)) \<or>
         Applied j \<in> set (snd (executeGenerationPlan env fg plan)))"
      by (intro conjI)
  qed
next
  show "files plan = [o1, o2, o3] \<longrightarrow>
    (approvalCallback env 0 o1 = Inr Approve \<or> approvalCallback env 0 o1 = Inr Auto) \<longrightarrow>
    (approvalCallback env 1 o2 = Inr Approve \<or> approvalCallback env 1 o2 = Inr Auto) \<longrightarrow>
    (approvalCallback env 2 o3 = Inr Approve \<or> approvalCallback env 2 o3 = Inr Auto) \<longrightarrow>
    executeFileOperation env fg 0 o1 = None \<longrightarrow>
    executeFileOperation env fg 1 o2 = Some err \<longrightarrow>
    executeFileOperation env fg 2 o3 = None \<longrightarrow>
      success (fst (executeGenerationPlan env fg plan)) = False \<and>
      filesCreated (fst (executeGenerationPlan env fg plan)) =
        map path (filter (\<lambda>x. opType x = Create) [o1, o3]) \<and>
      filesModified (fst (executeGenerationPlan env fg plan)) =
        map path (filter (\<lambda>x. opType x = Modify) [o1, o3]) \<and>
      filesSkipped (fst (executeGenerationPlan env fg plan)) = [] \<and>
      filter (\<lambda>m. startsWith m ''Failed to process '')
        (errors (fst (executeGenerationPlan env fg plan))) =
        [''Failed to process '' @ path o2 @ '': '' @ err]"
  proof (intro impI)
    assume "files plan = [o1, o2, o3]"
      "approvalCallback env 0 o1 = Inr Approve \<or> approvalCallback env 0 o1 = Inr Auto"
      "approvalCallback env 1 o2 = Inr Approve \<or> approvalCallback env 1 o2 = Inr Auto"
      "approvalCallback env 2 o3 = Inr Approve \<or> approvalCallback env 2 o3 = Inr Auto"
      "executeFileOperation env fg 0 o1 = None"
      "executeFileOperation env fg 1 o2 = Some err"
      "executeFileOperation env fg 2 o3 = None"
    note s = three_approved_second_fails[OF this]
    from s(1) s(2) s(3) s(4) s(5)
    show "success (fst (executeGenerationPlan env fg plan)) = False \<and>
      filesCreated (fst (executeGenerationPlan env fg plan)) =
        map path (filter (\<lambda>x. opType x = Create) [o1, o3]) \<and>
      filesModified (fst (executeGenerationPlan env fg plan)) =
        map path (filter (\<lambda>x. opType x = Modify) [o1, o3]) \<and>
      filesSkipped (fst (executeGenerationPlan env fg plan)) = [] \<and>
      filter (\<lambda>m. startsWith m ''Failed to process '')
        (errors (fst (executeGenerationPlan env fg plan))) =
        [''Failed to process '' @ path o2 @ '': '' @ err]"
      by (intro conjI)
  qed
qed

text \<open>The specification's scenario: three approved operations, the second write fails.\<close>

theorem continue_after_apply_failure_witness:
  "files planOfThree =
     [mkOperation ''a.ts'' Create, mkOperation ''b.ts'' Modify, mkOperation ''c.ts'' Create] \<and>
   approvalCallback envSecondWriteFails 0 (mkOperation ''a.ts'' Create) = Inr Approve \<and>
   approvalCallback envSecondWriteFails 1 (mkOperation ''b.ts'' Modify) = Inr Approve \<and>
   approvalCallback envSecondWriteFails 2 (mkOperation ''c.ts'' Create) = Inr Approve \<and>
   executeFileOperation envSecondWriteFails appGenerator 0 (mkOperation ''a.ts'' Create) = None \<and>
   executeFileOperation envSecondWriteFails appGenerator 1 (mkOperation ''b.ts'' Modify) =
     Some ''Error: EACCES'' \<and>
   executeFileOperation envSecondWriteFails appGenerator 2 (mkOperation ''c.ts'' Create) = None \<and>
   success (fst (executeGenerationPlan envSecondWriteFails appGenerator planOfThree)) = False \<and>
   filesCreated (fst (executeGenerationPlan envSecondWriteFails appGenerator planOfThree)) =
     [''a.ts'', ''c.ts''] \<and>
   filesModified (fst (executeGenerationPlan envSecondWriteFails appGenerator planOfThree)) = [] \<and>
   errors (fst (executeGenerationPlan envSecondWriteFails appGenerator planOfThree)) =
     [''Failed to process b.ts: Error: EACCES''] \<and>
   snd (executeGenerationPlan envSecondWriteFails appGenerator planOfThree) =
     [Asked 0, Applied 0, Asked 1, Applied 1, Asked 2, Applied 2]"
proof -
  have f: "files planOfThree =
     [mkOperation ''a.ts'' Create, mkOperation ''b.ts'' Modify, mkOperation ''c.ts'' Create]"
    by (simp add: planOfThree_def)
  have a: "approvalCallback envSecondWriteFails 0 (mkOperation ''a.ts'' Create) = Inr Approve"
    "approvalCallback envSecondWriteFails 1 (mkOperation ''b.ts'' Modify) = Inr Approve"
    "approvalCallback envSecondWriteFails 2 (mkOperation ''c.ts'' Create) = Inr Approve"
    by (simp_all add: envSecondWriteFails_def quietEnv_def)
  have e0: "executeFileOperation envSecondWriteFails appGenerator 0 (mkOperation ''a.ts'' Create)
      = None"
    by code_simp
  have e1: "executeFileOperation envSecondWriteFails appGenerator 1 (mkOperation ''b.ts'' Modify)
      = Some ''Error: EACCES''"
    by code_simp
  have e2: "executeFileOperation envSecondWriteFails appGenerator 2 (mkOperation ''c.ts'' Create)
      = None"
    by code_simp
  from continue_after_apply_failure[of envSecondWriteFails appGenerator planOfThree
      "mkOperation ''a.ts'' Create" "mkOperation ''b.ts'' Modify" "mkOperation ''c.ts'' Create"
      "''Error: EACCES''"] f a e0 e1 e2
  have s: "success (fst (executeGenerationPlan envSecondWriteFails appGenerator planOfThree))
      = False"
    by blast
  have c: "filesCreated (fst (executeGenerationPlan envSecondWriteFails appGenerator planOfThree))
      = [''a.ts'', ''c.ts'']"
    by code_simp
  have m: "filesModified (fst (executeGenerationPlan envSecondWriteFails appGenerator planOfThree))
      = []"
    by code_simp
  have r: "errors (fst (executeGenerationPlan envSecondWriteFails appGenerator planOfThree)) =
     [''Failed to process b.ts: Error: EACCES'']"
    by code_simp
  have t: "snd (executeGenerationPlan envSecondWriteFails appGenerator planOfThree) =
     [Asked 0, Applied 0, Asked 1, Applied 1, Asked 2, Applied 2]"
    by code_simp
  from f a e0 e1 e2 s c m r t show ?thesis by simp
qed

text \<open>
  Claim C5, as stated, fails: when the awaited decision callback rejects, the
  \<^verbatim>\<open>catch\<close> block sets success to false although no operation was applied.
\<close>

theorem success_rule_counterexample:
  "\<not> failsOnlyWhenApplyThrew envCallbackRejects appGenerator planOfOne"
proof -
  have e: "executeGenerationPlan envCallbackRejects appGenerator planOfOne =
      (initialResult\<lparr>success := False,
         errors := [''Failed to process a.ts: Error: readline was closed'']\<rparr>, [Asked 0])"
    by code_simp
  show ?thesis
    unfolding failsOnlyWhenApplyThrew_def e by simp
qed

text \<open>
  Claim C5, amended. The success flag of the result is false exactly when processing some
  operation threw: the decision callback was awaited for it and rejected, or
  \<^verbatim>\<open>executeFileOperation\<close> was called for it and threw. Skipped operations, the \<^verbatim>\<open>edit\<close>
  decision, a failed branch creation and a failed commit leave it true.
\<close>

theorem success_false_iff_processing_threw:
  "success (fst (executeGenerationPlan env fg plan)) = False \<longleftrightarrow>
     (\<exists>i<length (files plan).
        (Asked i \<in> set (snd (executeGenerationPlan env fg plan)) \<and>
         isl (approvalCallback env i (files plan ! i))) \<or>
        (Applied i \<in> set (snd (executeGenerationPlan env fg plan)) \<and>
         executeFileOperation env fg i (files plan ! i) \<noteq> None))"
  unfolding run_facts threwAt_def by auto

section \<open>The Safety Boundary, the Content Parser and the Plan Builder on concrete texts\<close>

text \<open>
  Claim C1 at a failing input. \<^verbatim>\<open>isPathSafe\<close> compares the resolved strings with
  \<^verbatim>\<open>startsWith\<close>, so a sibling directory whose name extends the project root's name passes:
  for the root \<^verbatim>\<open>/home/u/app\<close> the path \<^verbatim>\<open>/home/u/app-secrets/key.ts\<close> is accepted although
  it lies outside the root, and the generated text \<^verbatim>\<open>Create ../app-secrets/key.ts\<close> puts an
  operation with that path into the plan.
\<close>

theorem safety_boundary_accepts_sibling_directory:
  "pathResolve ''/home/u/app'' [''/home/u/app'', ''../app-secrets/key.ts''] =
     ''/home/u/app-secrets/key.ts'' \<and>
   insideDirectory ''/home/u/app'' ''/home/u/app-secrets/key.ts'' = False \<and>
   isPathSafe (directorySafety appGenerator) ''/home/u/app'' ''/home/u/app-secrets/key.ts'' = True \<and>
   validatePath (directorySafety appGenerator) ''/home/u/app'' ''/home/u/app-secrets/key.ts'' = None \<and>
   map_option (\<lambda>p. map path (files p))
     (createGenerationPlan appGenerator emptyProject ''keys'' textSiblingDirectory 0) =
     Some [''../app-secrets/key.ts'']"
proof -
  have a: "pathResolve ''/home/u/app'' [''/home/u/app'', ''../app-secrets/key.ts''] =
     ''/home/u/app-secrets/key.ts''"
    by code_simp
  have b: "insideDirectory ''/home/u/app'' ''/home/u/app-secrets/key.ts'' = False"
    by code_simp
  have c: "isPathSafe (directorySafety appGenerator) ''/home/u/app''
      ''/home/u/app-secrets/key.ts'' = True"
    by code_simp
  have d: "validatePath (directorySafety appGenerator) ''/home/u/app''
      ''/home/u/app-secrets/key.ts'' = None"
    by code_simp
  have e: "map_option (\<lambda>p. map path (files p))
     (createGenerationPlan appGenerator emptyProject ''keys'' textSiblingDirectory 0) =
     Some [''../app-secrets/key.ts'']"
    by code_simp
  from a b c d e show ?thesis by simp
qed

text \<open>
  Claim C8 at a failing input. Only the second loop looks a path up among the operations
  found so far: two fenced regions annotated with the same path give two operations with
  that path.
\<close>

theorem parser_returns_duplicate_paths:
  "map_option (map (\<lambda>f. (path f, content f)))
     (parseGeneratedContent appGenerator emptyProject textTwoBlocksOnePath) =
     Some [(''src/a.ts'', ''let x = 1;''), (''src/a.ts'', ''let x = 2;'')]"
  by code_simp

text \<open>
  Claim C9 at a failing input. The expressions of \<^verbatim>\<open>sanitizeFeatureName\<close> are written with a
  doubled backslash, so white space is stripped with the other characters and no hyphen
  is put in its place.
\<close>

theorem slug_drops_whitespace:
  "sanitizeFeatureName ''Add User Login'' = ''adduserlogin'' \<and>
   map_option branchName
     (createGenerationPlan appGenerator emptyProject ''Add User Login'' [] 0) =
     Some (Some ''hypercode-adduserlogin'')"
proof -
  have a: "sanitizeFeatureName ''Add User Login'' = ''adduserlogin''"
    by code_simp
  have b: "map_option branchName
     (createGenerationPlan appGenerator emptyProject ''Add User Login'' [] 0) =
     Some (Some ''hypercode-adduserlogin'')"
    by code_simp
  from a b show ?thesis by simp
qed

section \<open>The matcher, the loops of the Content Parser and the slug in general\<close>

lemma stripLit_length: "stripLit ic l s = Some s' \<Longrightarrow> length s' + length l = length s"
  by (induction ic l s rule: stripLit.induct) (auto split: if_splits)

lemma progressI:
  "k (p', s', c') = Some z \<Longrightarrow> length s' \<le> n \<Longrightarrow>
   \<exists>p' s' c'. k (p', s', c') = Some z \<and> length s' \<le> n"
  by blast

text \<open>A successful match hands the continuation a state that is no longer than the start.\<close>

lemma matcher_progress:
  "matcher ic da r st k = Some z \<Longrightarrow>
   \<exists>p' s' c'. k (p', s', c') = Some z \<and> length s' \<le> length (fst (snd st))"
proof (induction ic da r st k arbitrary: z rule: matcher.induct)
  case (1 ic da p s c k)
  then obtain x xs where "s = x # xs" "k (Suc p, xs, c) = Some z"
    by (auto split: list.splits if_splits)
  then show ?case by (intro progressI[of k "Suc p" xs c]) simp_all
next
  case (2 ic da neg items p s c k)
  then obtain x xs where "s = x # xs" "k (Suc p, xs, c) = Some z"
    by (auto split: list.splits if_splits)
  then show ?case by (intro progressI[of k "Suc p" xs c]) simp_all
next
  case (3 ic da l p s c k)
  then obtain s' where s: "stripLit ic l s = Some s'" and k: "k (p + length l, s', c) = Some z"
    by (auto split: option.splits)
  from stripLit_length[OF s] have "length s' \<le> length s" by simp
  with k show ?case by (intro progressI[of k "p + length l" s' c]) simp_all
next
  case (4 ic da a b st k)
  from "4.prems" have "matcher ic da a st (\<lambda>st'. matcher ic da b st' k) = Some z" by simp
  from "4.IH"(2)[OF this] obtain p1 s1 c1 where
    m: "matcher ic da b (p1, s1, c1) k = Some z" and l: "length s1 \<le> length (fst (snd st))"
    by blast
  from "4.IH"(1)[OF m] obtain p2 s2 c2 where "k (p2, s2, c2) = Some z" "length s2 \<le> length s1"
    by auto
  with l show ?case by (intro progressI[of k p2 s2 c2]) simp_all
next
  case (5 ic da a b st k)
  show ?case
  proof (cases "matcher ic da a st k")
    case None
    with "5.prems" have "matcher ic da b st k = Some z" by simp
    from "5.IH"(2)[OF None this] show ?thesis .
  next
    case (Some y)
    with "5.prems" have "matcher ic da a st k = Some z" by simp
    from "5.IH"(1)[OF this] show ?thesis .
  qed
next
  case (6 ic da mn mx greedy r p s c k)
  define d where "d = (\<lambda>(p', s', c').
                  if mn = 0 \<and> length s \<le> length s' then None
                  else matcher ic da (Rep (mn - 1) (map_option (\<lambda>n. n - 1) mx) greedy r)
                         (p', s', c') k)"
  define xr where "xr = (p, s, clearCaptures (groupsOf r) c)"
  have eq: "matcher ic da (Rep mn mx greedy r) (p, s, c) k =
      (if mx = Some 0 then k (p, s, c)
       else if mn \<noteq> 0 then matcher ic da r xr d
       else if \<not> greedy then
         (case k (p, s, c) of Some z \<Rightarrow> Some z | None \<Rightarrow> matcher ic da r xr d)
       else (case matcher ic da r xr d of Some z \<Rightarrow> Some z | None \<Rightarrow> k (p, s, c)))"
    unfolding d_def xr_def by (rule trans[OF matcher.simps(6)]) (simp only: Let_def)
  note P = "6.prems"[unfolded eq]
  have xl: "length (fst (snd xr)) = length s" by (simp add: xr_def)
  have here: "k (p, s, c) = Some z \<Longrightarrow> ?case"
    by (intro progressI[of k p s c]) simp_all
  have after: ?case
    if nz: "mx \<noteq> Some 0" and dz: "d (p1, s1, c1) = Some z" and l: "length s1 \<le> length s"
    for p1 s1 c1
  proof -
    from dz have g: "\<not> (mn = 0 \<and> length s \<le> length s1)"
      and m: "matcher ic da (Rep (mn - 1) (map_option (\<lambda>n. n - 1) mx) greedy r) (p1, s1, c1) k
               = Some z"
      by (auto simp: d_def simp del: matcher.simps split: if_splits)
    from "6.IH"(1)[OF nz g m] obtain p2 s2 c2 where
      "k (p2, s2, c2) = Some z" "length s2 \<le> length s1"
      by auto
    with l show ?case by (intro progressI[of k p2 s2 c2]) simp_all
  qed
  show ?case
  proof (cases "mx = Some 0")
    case True
    with P have "k (p, s, c) = Some z" by (simp del: matcher.simps)
    then show ?thesis by (rule here)
  next
    case nz: False
    show ?thesis
    proof (cases "mn \<noteq> 0")
      case True
      with nz P have a: "matcher ic da r xr d = Some z" by (simp del: matcher.simps)
      from "6.IH"(2)[OF nz d_def xr_def True a] xl obtain p1 s1 c1 where
        "d (p1, s1, c1) = Some z" "length s1 \<le> length s"
        by auto
      with nz show ?thesis by (rule after)
    next
      case mn: False
      show ?thesis
      proof (cases greedy)
        case False
        show ?thesis
        proof (cases "k (p, s, c)")
          case None
          with nz mn False P have a: "matcher ic da r xr d = Some z"
            by (simp del: matcher.simps)
          from "6.IH"(3)[OF nz d_def xr_def mn False None a] xl obtain p1 s1 c1 where
            "d (p1, s1, c1) = Some z" "length s1 \<le> length s"
            by auto
          with nz show ?thesis by (rule after)
        next
          case (Some y)
          with nz mn False P have "k (p, s, c) = Some z" by (simp del: matcher.simps)
          then show ?thesis by (rule here)
        qed
      next
        case True
        then have g: "\<not> \<not> greedy" by simp
        show ?thesis
        proof (cases "matcher ic da r xr d")
          case None
          with nz mn True P have "k (p, s, c) = Some z" by (simp del: matcher.simps)
          then show ?thesis by (rule here)
        next
          case (Some y)
          with nz mn True P have a: "matcher ic da r xr d = Some z"
            by (simp del: matcher.simps)
          from "6.IH"(4)[OF nz d_def xr_def mn g a] xl obtain p1 s1 c1 where
            "d (p1, s1, c1) = Some z" "length s1 \<le> length s"
            by auto
          with nz show ?thesis by (rule after)
        qed
      qed
    qed
  qed
next
  case (7 ic da n r p s c k)
  from "7.prems" have "matcher ic da r (p, s, c)
      (\<lambda>(p', s', c'). k (p', s', c'(n := Some (take (p' - p) s)))) = Some z"
    by simp
  from "7.IH"[OF this] obtain p1 s1 c1 where
    "k (p1, s1, c1(n := Some (take (p1 - p) s))) = Some z" "length s1 \<le> length s"
    by auto
  then show ?case
    by (intro progressI[of k p1 s1 "c1(n := Some (take (p1 - p) s))"]) simp_all
next
  case (8 ic da p s c k)
  then have "k (p, s, c) = Some z" by (simp split: if_splits)
  then show ?case by (intro progressI[of k p s c]) simp_all
next
  case (9 ic da p s c k)
  then have "k (p, s, c) = Some z" by (simp split: if_splits)
  then show ?case by (intro progressI[of k p s c]) simp_all
qed

lemma matchHere_no_longer:
  "matchHere ic da r p s = Some (e, s', c) \<Longrightarrow> length s' \<le> length s"
  unfolding matchHere_def by (drule matcher_progress) auto

text \<open>
  Both expressions of the parser begin with a literal that is not empty, so each of their
  matches consumes a character and the two loops end for every text.
\<close>

lemma matcher_Lit_Seq:
  assumes "matcher ic da (Seq (Lit l) r) (p, s, c) k = Some z" "l \<noteq> []"
  shows "\<exists>p' s' c'. k (p', s', c') = Some z \<and> length s' < length s"
proof -
  from assms(1) obtain s1 where s: "stripLit ic l s = Some s1"
    and m: "matcher ic da r (p + length l, s1, c) k = Some z"
    by (auto split: option.splits)
  from stripLit_length[OF s] assms(2) have "length s1 < length s"
    by (cases l) auto
  moreover from matcher_progress[OF m] obtain p' s' c' where
    "k (p', s', c') = Some z" "length s' \<le> length s1"
    by auto
  ultimately show ?thesis by (intro exI[of _ p'] exI[of _ s'] exI[of _ c']) simp
qed

lemma consuming_Lit_Seq:
  assumes "l \<noteq> []"
  shows "consuming ic da (Seq (Lit l) r)"
  unfolding consuming_def matchHere_def
proof (intro allI impI)
  fix p s e s' c'
  assume "matcher ic da (Seq (Lit l) r) (p, s, \<lambda>_. None) Some = Some (e, s', c')"
  from matcher_Lit_Seq[OF this assms] show "length s' < length s" by auto
qed

lemma consuming_fileRegex: "consuming False True fileRegex"
  unfolding fileRegex_def by (simp add: consuming_Lit_Seq)

lemma matcher_Alt_Seq:
  "matcher ic da (Seq (Alt a b) r) st k =
     (case matcher ic da (Seq a r) st k of
        Some z \<Rightarrow> Some z
      | None \<Rightarrow> matcher ic da (Seq b r) st k)"
  by (simp split: option.splits)

lemma consuming_Alt_Seq:
  assumes "consuming ic da (Seq a r)" "consuming ic da (Seq b r)"
  shows "consuming ic da (Seq (Alt a b) r)"
  using assms unfolding consuming_def matchHere_def matcher_Alt_Seq
  by (auto split: option.splits)

lemma consuming_explicitFileRegex: "consuming True False explicitFileRegex"
  unfolding explicitFileRegex_def
  by (simp add: consuming_Alt_Seq consuming_Lit_Seq)

lemma scan_match:
  "scan ic da r p s = Some (b, st) \<Longrightarrow>
   \<exists>t. matchHere ic da r b t = Some st \<and> length t \<le> length s"
proof (induction s arbitrary: p)
  case Nil
  then show ?case by auto
next
  case (Cons x xs)
  show ?case
  proof (cases "matchHere ic da r p (x # xs)")
    case None
    with Cons.prems have "scan ic da r (Suc p) xs = Some (b, st)" by simp
    from Cons.IH[OF this] show ?thesis by auto
  next
    case (Some y)
    with Cons.prems have "b = p" "y = st" by simp_all
    with Some show ?thesis by auto
  qed
qed

lemma execAll_total:
  assumes "consuming ic da r"
  shows "\<exists>ms. execAll ic da r p s = Some ms"
proof (induction "length s" arbitrary: p s rule: less_induct)
  case less
  show ?case
  proof (cases "scan ic da r p s")
    case None
    then show ?thesis by (subst execAll.simps) simp
  next
    case (Some m)
    obtain b e s' c where m: "m = (b, (e, s', c))" by (cases m) auto
    from scan_match[OF Some[unfolded m]] obtain t where
      t: "matchHere ic da r b t = Some (e, s', c)" "length t \<le> length s"
      by auto
    from assms t(1) have "length s' < length t" unfolding consuming_def by blast
    with t(2) have l: "length s' < length s" by simp
    from less[OF l] obtain ms where "execAll ic da r e s' = Some ms" by blast
    with Some m l have "execAll ic da r p s = Some (c # ms)"
      by (subst execAll.simps) simp
    then show ?thesis by blast
  qed
qed

lemma parseGeneratedContent_total:
  "\<exists>ops. parseGeneratedContent fg fs text = Some ops"
proof -
  from execAll_total[OF consuming_fileRegex] obtain fenced where
    "execAll False True fileRegex 0 text = Some fenced" by blast
  moreover from execAll_total[OF consuming_explicitFileRegex] obtain mentions where
    "execAll True False explicitFileRegex 0 text = Some mentions" by blast
  ultimately show ?thesis by (simp add: parseGeneratedContent_def)
qed

text \<open>
  What the two loops do guarantee: the operations of the fenced regions come first and
  the mentions after them; the mentions carry pairwise different paths that no fenced
  region carries; every operation has passed \<^verbatim>\<open>validatePath\<close>.
\<close>

lemma validatePath_None: "validatePath ds cwd' p = None \<longleftrightarrow> isPathSafe ds cwd' p"
  by (simp add: validatePath_def)

lemma fencedStep_append:
  "\<exists>new. fencedStep fg fs fls c = fls @ new \<and> length new \<le> 1 \<and>
     (\<forall>f\<in>set new. isPathSafe (directorySafety fg) (cwd fs)
                      (pathResolve (cwd fs) [projectRoot fg, path f]))"
  by (auto simp: fencedStep_def Let_def validatePath_None[symmetric]
      split: option.splits sum.splits)

lemma explicitStep_append:
  "\<exists>new. explicitStep fg fs fls c = fls @ new \<and> length new \<le> 1 \<and>
     (\<forall>f\<in>set new. path f \<notin> path ` set fls \<and>
        isPathSafe (directorySafety fg) (cwd fs)
          (pathResolve (cwd fs) [projectRoot fg, path f]))"
  by (auto simp: explicitStep_def Let_def list_ex_iff validatePath_None[symmetric]
      split: option.splits)

lemma fenced_loop:
  "\<exists>new. foldl (fencedStep fg fs) fls ms = fls @ new \<and>
     (\<forall>f\<in>set new. isPathSafe (directorySafety fg) (cwd fs)
                      (pathResolve (cwd fs) [projectRoot fg, path f]))"
proof (induction ms arbitrary: fls)
  case Nil
  show ?case by simp
next
  case (Cons c ms)
  from fencedStep_append[of fg fs fls c] obtain n1 where
    1: "fencedStep fg fs fls c = fls @ n1"
      "\<forall>f\<in>set n1. isPathSafe (directorySafety fg) (cwd fs)
                      (pathResolve (cwd fs) [projectRoot fg, path f])"
    by blast
  from Cons.IH[of "fls @ n1"] obtain n2 where
    2: "foldl (fencedStep fg fs) (fls @ n1) ms = (fls @ n1) @ n2"
      "\<forall>f\<in>set n2. isPathSafe (directorySafety fg) (cwd fs)
                      (pathResolve (cwd fs) [projectRoot fg, path f])"
    by blast
  from 1 2 show ?case by (intro exI[of _ "n1 @ n2"]) auto
qed

lemma explicit_loop:
  "\<exists>new. foldl (explicitStep fg fs) fls ms = fls @ new \<and>
     distinct (map path new) \<and> path ` set new \<inter> path ` set fls = {} \<and>
     (\<forall>f\<in>set new. isPathSafe (directorySafety fg) (cwd fs)
                      (pathResolve (cwd fs) [projectRoot fg, path f]))"
proof (induction ms arbitrary: fls)
  case Nil
  show ?case by simp
next
  case (Cons c ms)
  from explicitStep_append[of fg fs fls c] obtain n1 where
    1: "explicitStep fg fs fls c = fls @ n1" "length n1 \<le> 1"
      "\<forall>f\<in>set n1. path f \<notin> path ` set fls \<and>
         isPathSafe (directorySafety fg) (cwd fs)
           (pathResolve (cwd fs) [projectRoot fg, path f])"
    by blast
  from Cons.IH[of "fls @ n1"] obtain n2 where
    2: "foldl (explicitStep fg fs) (fls @ n1) ms = (fls @ n1) @ n2"
      "distinct (map path n2)" "path ` set n2 \<inter> path ` set (fls @ n1) = {}"
      "\<forall>f\<in>set n2. isPathSafe (directorySafety fg) (cwd fs)
                      (pathResolve (cwd fs) [projectRoot fg, path f])"
    by blast
  from 1(2) have d1: "distinct (map path n1)" by (cases n1) auto
  show ?case
  proof (intro exI[of _ "n1 @ n2"] conjI)
    show "foldl (explicitStep fg fs) fls (c # ms) = fls @ n1 @ n2" using 1(1) 2(1) by simp
    show "distinct (map path (n1 @ n2))" using d1 2(2,3) by auto
    show "path ` set (n1 @ n2) \<inter> path ` set fls = {}" using 1(3) 2(3) by auto
    show "\<forall>f\<in>set (n1 @ n2). isPathSafe (directorySafety fg) (cwd fs)
                      (pathResolve (cwd fs) [projectRoot fg, path f])"
      using 1(3) 2(4) by auto
  qed
qed

lemma parsed_operations:
  assumes "parseGeneratedContent fg fs text = Some ops"
  shows "\<exists>fenced mentioned. ops = fenced @ mentioned \<and>
     distinct (map path mentioned) \<and> path ` set mentioned \<inter> path ` set fenced = {} \<and>
     (\<forall>f\<in>set ops. isPathSafe (directorySafety fg) (cwd fs)
                      (pathResolve (cwd fs) [projectRoot fg, path f]))"
proof -
  from assms obtain fm em where
    o: "ops = foldl (explicitStep fg fs) (foldl (fencedStep fg fs) [] fm) em"
    by (auto simp: parseGeneratedContent_def simp del: execAll.simps split: option.splits)
  from fenced_loop[of fg fs "[]" fm] obtain fenced where
    f: "foldl (fencedStep fg fs) [] fm = fenced"
      "\<forall>f\<in>set fenced. isPathSafe (directorySafety fg) (cwd fs)
                      (pathResolve (cwd fs) [projectRoot fg, path f])"
    by auto
  from explicit_loop[of fg fs fenced em] obtain mentioned where
    m: "foldl (explicitStep fg fs) fenced em = fenced @ mentioned"
      "distinct (map path mentioned)" "path ` set mentioned \<inter> path ` set fenced = {}"
      "\<forall>f\<in>set mentioned. isPathSafe (directorySafety fg) (cwd fs)
                      (pathResolve (cwd fs) [projectRoot fg, path f])"
    by blast
  show ?thesis
  proof (rule exI[of _ fenced], rule exI[of _ mentioned], intro conjI)
    show "ops = fenced @ mentioned" using o f(1) m(1) by simp
    then show "\<forall>f\<in>set ops. isPathSafe (directorySafety fg) (cwd fs)
                      (pathResolve (cwd fs) [projectRoot fg, path f])"
      using f(2) m(4) by auto
    show "distinct (map path mentioned)" by (rule m(2))
    show "path ` set mentioned \<inter> path ` set fenced = {}" by (rule m(3))
  qed
qed

text \<open>
  The slug in closed form, for a feature with no hyphen and no backslash: the lower-case
  letters and digits of the lower-cased feature, cut at 50 characters. No hyphen appears.
\<close>

lemma replaceAll_Class_empty:
  "replaceAll ic da (Class neg items) [] p s = filter (\<lambda>c. \<not> classMatches ic neg items c) s"
proof (induction s arbitrary: p)
  case Nil
  show ?case by (simp add: matchHere_def)
next
  case (Cons x xs)
  show ?case
    by (subst replaceAll.simps) (simp add: matchHere_def Cons.IH del: replaceAll.simps)
qed

lemma replaceAll_no_match:
  assumes "\<And>p t. t = [] \<or> hd t \<notin> A \<Longrightarrow> matchHere ic da r p t = None"
    and "set s \<inter> A = {}"
  shows "replaceAll ic da r rep p s = s"
  using assms(2)
proof (induction s arbitrary: p)
  case Nil
  show ?case by (subst replaceAll.simps) (simp add: assms(1) del: replaceAll.simps)
next
  case (Cons x xs)
  from Cons.prems have "matchHere ic da r p (x # xs) = None" by (intro assms(1)) auto
  moreover from Cons.prems have "replaceAll ic da r rep (Suc p) xs = xs"
    by (intro Cons.IH) auto
  ultimately show ?case by (subst replaceAll.simps) (simp del: replaceAll.simps)
qed

lemma matchHere_Seq_Lit_None:
  "t = [] \<or> hd t \<notin> {a} \<Longrightarrow> matchHere False da (Seq (Lit [a]) r) p t = None"
  by (cases t) (auto simp: matchHere_def)

lemma matchHere_Plus_Lit_None:
  "t = [] \<or> hd t \<notin> {a} \<Longrightarrow> matchHere False da (Rep 1 None True (Lit [a])) p t = None"
  by (cases t) (auto simp: matchHere_def)

lemma toLowerChar_eq:
  assumes "toLowerChar c = b" and "\<not> (97 \<le> (of_char b :: nat) \<and> (of_char b :: nat) \<le> 122)"
  shows "c = b"
proof (cases "65 \<le> (of_char c :: nat) \<and> (of_char c :: nat) \<le> 90")
  case True
  then have "b = char_of ((of_char c :: nat) + 32)"
    using assms(1) by (simp add: toLowerChar_def Let_def)
  then have "(of_char b :: nat) = ((of_char c :: nat) + 32) mod 256" by simp
  with True assms(2) show ?thesis by simp
next
  case False
  then show ?thesis using assms(1) by (auto simp: toLowerChar_def Let_def)
qed

lemma slug_without_hyphens:
  assumes "CHR ''-'' \<notin> set feat" and "backslash \<notin> set feat"
  shows "sanitizeFeatureName feat =
           take 50 (filter (\<lambda>c. itemMatches (Range CHR ''a'' CHR ''z'') c \<or>
                                itemMatches (Range CHR ''0'' CHR ''9'') c)
                           (toLowerCase feat))"
proof -
  let ?keep = "\<lambda>c. itemMatches (Range CHR ''a'' CHR ''z'') c \<or>
                    itemMatches (Range CHR ''0'' CHR ''9'') c"
  let ?low = "toLowerCase feat"
  have h: "CHR ''-'' \<notin> set ?low"
  proof
    assume "CHR ''-'' \<in> set ?low"
    then obtain c where c: "c \<in> set feat" "toLowerChar c = CHR ''-''"
      by (auto simp: toLowerCase_def)
    from toLowerChar_eq[OF c(2)] have "c = CHR ''-''" by simp
    with c(1) assms(1) show False by simp
  qed
  have b: "backslash \<notin> set ?low"
  proof
    assume "backslash \<in> set ?low"
    then obtain c where c: "c \<in> set feat" "toLowerChar c = backslash"
      by (auto simp: toLowerCase_def)
    from toLowerChar_eq[OF c(2)] have "c = backslash" by (simp add: backslash_def)
    with c(1) assms(2) show False by simp
  qed
  have 1: "replaceAll False False
              (Class True [Range CHR ''a'' CHR ''z'', Range CHR ''0'' CHR ''9'',
                           Single backslash, Single CHR ''s'', Single CHR ''-'']) [] 0 ?low
           = filter ?keep ?low"
    unfolding replaceAll_Class_empty
  proof (rule filter_cong[OF refl])
    fix c assume "c \<in> set ?low"
    with h b have "c \<noteq> CHR ''-''" "c \<noteq> backslash" by auto
    then show "(\<not> classMatches False True [Range CHR ''a'' CHR ''z'', Range CHR ''0'' CHR ''9'',
                           Single backslash, Single CHR ''s'', Single CHR ''-''] c) = ?keep c"
      by (auto simp: classMatches_def)
  qed
  have 2: "replaceAll False False (Seq (Lit [backslash]) (Rep 1 None True (Lit ''s''))) ''-'' 0
             (filter ?keep ?low) = filter ?keep ?low"
    using b by (intro replaceAll_no_match[where A = "{backslash}"] matchHere_Seq_Lit_None) auto
  have 3: "replaceAll False False (Rep 1 None True (Lit ''-'')) ''-'' 0
             (filter ?keep ?low) = filter ?keep ?low"
    using h by (intro replaceAll_no_match[where A = "{CHR ''-''}"] matchHere_Plus_Lit_None) auto
  show ?thesis
    unfolding sanitizeFeatureName_def by (simp only: 1 2 3)
qed

lemma slug_has_no_hyphen:
  assumes "CHR ''-'' \<notin> set feat" and "backslash \<notin> set feat"
  shows "CHR ''-'' \<notin> set (sanitizeFeatureName feat)"
proof
  assume "CHR ''-'' \<in> set (sanitizeFeatureName feat)"
  then have "CHR ''-'' \<in> set (filter (\<lambda>c. itemMatches (Range CHR ''a'' CHR ''z'') c \<or>
                                itemMatches (Range CHR ''0'' CHR ''9'') c) (toLowerCase feat))"
    unfolding slug_without_hyphens[OF assms] by (rule in_set_takeD)
  then show False by simp
qed
end
